theory Spec2Isabelle
  imports Main "HOL-Library.Multiset"
begin

section \<open>Data model of pathfinder.py\<close>

text \<open>
  A \<open>Node\<close> of the source carries its coordinates, a reference to its parent and the two
  cost fields. A node is never mutated after it has been put on a list (the cost fields
  are assigned between construction and insertion, and \<open>open[i] = neighbor\<close> replaces a
  list slot), so the parent reference is modelled as the parent's value.
\<close>

datatype node = Node (node_y: int) (node_x: int) (parent: "node option") (gCost: int) (hCost: int)

text \<open>\<open>Node.__eq__\<close>: every value of the model is a \<open>Node\<close>, so the \<open>isinstance\<close> test is true.\<close>

definition node_eq :: "node \<Rightarrow> node \<Rightarrow> bool" where
  "node_eq a b = (node_y a = node_y b \<and> node_x a = node_x b)"

definition getPos :: "node \<Rightarrow> int \<times> int" where
  "getPos n = (node_y n, node_x n)"

definition fCost :: "node \<Rightarrow> int" where
  "fCost n = gCost n + hCost n"

text \<open>\<open>getNeighbors\<close>; the first argument is the global \<open>DIAGONAL\<close>.\<close>

definition getNeighbors :: "bool \<Rightarrow> node \<Rightarrow> node list" where
  "getNeighbors diagonal n =
     (let up = Node (node_y n - 1) (node_x n) (Some n) 0 0;
          right = Node (node_y n) (node_x n + 1) (Some n) 0 0;
          down = Node (node_y n + 1) (node_x n) (Some n) 0 0;
          left = Node (node_y n) (node_x n - 1) (Some n) 0 0
      in if diagonal then
           (let ur = Node (node_y n - 1) (node_x n + 1) (Some n) 0 0;
                dr = Node (node_y n + 1) (node_x n + 1) (Some n) 0 0;
                dl = Node (node_y n + 1) (node_x n - 1) (Some n) 0 0;
                ul = Node (node_y n - 1) (node_x n - 1) (Some n) 0 0
            in [up, right, down, left, ur, dr, dl, ul])
         else [up, right, down, left])"

text \<open>\<open>x in xs\<close> on a list of nodes compares with \<open>__eq__\<close>.\<close>

definition node_in :: "node \<Rightarrow> node list \<Rightarrow> bool" where
  "node_in n ns = (\<exists>m \<in> set ns. node_eq m n)"

subsection \<open>The grid and Python's list indexing\<close>

datatype error = IndexError

text \<open>Tile values of \<open>GRID\<close>, named after the legend drawn by \<open>drawLegend\<close>.\<close>

abbreviation (input) Path :: int where "Path \<equiv> 0"
abbreviation (input) Wall :: int where "Wall \<equiv> 1"
abbreviation (input) StartTile :: int where "StartTile \<equiv> 2"
abbreviation (input) EndTile :: int where "EndTile \<equiv> 3"
abbreviation (input) Frontier :: int where "Frontier \<equiv> 4"
abbreviation (input) Visited :: int where "Visited \<equiv> 5"
abbreviation (input) FinalPath :: int where "FinalPath \<equiv> 6"

type_synonym grid = "int list list"

text \<open>
  A Python index: a negative index counts from the end, an index outside the list raises
  \<open>IndexError\<close>.
\<close>

definition py_index :: "'a list \<Rightarrow> int \<Rightarrow> error + nat" where
  "py_index xs i =
     (let n = int (length xs); j = (if i < 0 then n + i else i)
      in if 0 \<le> j \<and> j < n then Inr (nat j) else Inl IndexError)"

text \<open>\<open>GRID[r][c]\<close> and \<open>GRID[r][c] = v\<close>.\<close>

definition grid_get :: "grid \<Rightarrow> int \<Rightarrow> int \<Rightarrow> error + int" where
  "grid_get g r c =
     (case py_index g r of Inl e \<Rightarrow> Inl e
      | Inr i \<Rightarrow> (case py_index (g ! i) c of Inl e \<Rightarrow> Inl e | Inr j \<Rightarrow> Inr (g ! i ! j)))"

definition grid_set :: "grid \<Rightarrow> int \<Rightarrow> int \<Rightarrow> int \<Rightarrow> error + grid" where
  "grid_set g r c v =
     (case py_index g r of Inl e \<Rightarrow> Inl e
      | Inr i \<Rightarrow> (case py_index (g ! i) c of Inl e \<Rightarrow> Inl e
                 | Inr j \<Rightarrow> Inr (g[i := (g ! i)[j := v]])))"

definition isPath :: "grid \<Rightarrow> node \<Rightarrow> error + bool" where
  "isPath g n = (case grid_get g (node_y n) (node_x n) of Inl e \<Rightarrow> Inl e | Inr v \<Rightarrow> Inr (v \<noteq> Wall))"

subsection \<open>The global state\<close>

record state =
  GRID :: grid
  START :: node
  END :: node
  DIAGONAL :: bool
  open_list :: "node list"
  closed_list :: "node list"
  searching :: bool

definition HCost :: "state \<Rightarrow> node \<Rightarrow> int" where
  "HCost s n =
     (let dy = \<bar>node_y (END s) - node_y n\<bar>; dx = \<bar>node_x (END s) - node_x n\<bar>
      in if DIAGONAL s then max dy dx else dy + dx)"

text \<open>A \<open>for\<close> loop over a list whose body may raise.\<close>

fun for_each :: "('s \<Rightarrow> 'a \<Rightarrow> error + 's) \<Rightarrow> 'a list \<Rightarrow> 's \<Rightarrow> error + 's" where
  "for_each body [] s = Inr s"
| "for_each body (a # as) s =
     (case body s a of Inl e \<Rightarrow> Inl e | Inr s' \<Rightarrow> for_each body as s')"

section \<open>The four search steps\<close>

text \<open>What a step returns: \<open>False\<close>, \<open>True\<close>, or nothing (\<open>None\<close>) when the search goes on.\<close>

datatype result = Failure | Success | Continuing

text \<open>
  The first lines after the removal, the same in all four functions: the removed node is
  appended to \<open>closed\<close> and its tile is set to 5.
\<close>

definition close_node :: "state \<Rightarrow> node \<Rightarrow> node list \<Rightarrow> error + state" where
  "close_node s cur rest =
     (case grid_set (GRID s) (node_y cur) (node_x cur) Visited of Inl e \<Rightarrow> Inl e
      | Inr g \<Rightarrow> Inr (s\<lparr>open_list := rest, closed_list := closed_list s @ [cur], GRID := g\<rparr>))"

text \<open>The body of the neighbour loop of \<open>DFS\<close> and of \<open>BFS\<close> (the same text in both).\<close>

definition admit :: "state \<Rightarrow> node \<Rightarrow> error + state" where
  "admit s neighbor =
     (case isPath (GRID s) neighbor of Inl e \<Rightarrow> Inl e
      | Inr p \<Rightarrow>
          if p \<and> \<not> node_in neighbor (closed_list s) \<and> \<not> node_in neighbor (open_list s) then
            (case grid_set (GRID s) (node_y neighbor) (node_x neighbor) Frontier of Inl e \<Rightarrow> Inl e
             | Inr g \<Rightarrow> Inr (s\<lparr>open_list := open_list s @ [neighbor], GRID := g\<rparr>))
          else Inr s)"

text \<open>The body of the neighbour loop of \<open>Greedy\<close>.\<close>

definition Greedy_admit :: "state \<Rightarrow> node \<Rightarrow> error + state" where
  "Greedy_admit s neighbor =
     (case isPath (GRID s) neighbor of Inl e \<Rightarrow> Inl e
      | Inr p \<Rightarrow>
          if p \<and> \<not> node_in neighbor (closed_list s) \<and> \<not> node_in neighbor (open_list s) then
            (let neighbor' = Node (node_y neighbor) (node_x neighbor) (parent neighbor)
                               (gCost neighbor) (HCost s neighbor)
             in case grid_set (GRID s) (node_y neighbor) (node_x neighbor) Frontier of Inl e \<Rightarrow> Inl e
                | Inr g \<Rightarrow> Inr (s\<lparr>open_list := open_list s @ [neighbor'], GRID := g\<rparr>))
          else Inr s)"

text \<open>
  The body of the neighbour loop of \<open>AStar\<close>. The inner loop over the indices of \<open>open\<close>
  looks at every slot once and overwrites it when it holds the neighbour's coordinates
  with a larger g-cost.
\<close>

definition replace_in_open :: "node \<Rightarrow> node list \<Rightarrow> node list" where
  "replace_in_open neighbor ns =
     map (\<lambda>e. if node_eq e neighbor \<and> gCost neighbor < gCost e then neighbor else e) ns"

definition AStar_admit :: "node \<Rightarrow> state \<Rightarrow> node \<Rightarrow> error + state" where
  "AStar_admit cur s neighbor =
     (case isPath (GRID s) neighbor of Inl e \<Rightarrow> Inl e
      | Inr p \<Rightarrow>
          if p \<and> \<not> node_in neighbor (closed_list s) then
            (let neighbor' = Node (node_y neighbor) (node_x neighbor) (parent neighbor)
                               (gCost cur + 1) (HCost s neighbor)
             in if node_in neighbor' (open_list s) then
                  Inr (s\<lparr>open_list := replace_in_open neighbor' (open_list s)\<rparr>)
                else
                  (case grid_set (GRID s) (node_y neighbor) (node_x neighbor) Frontier of
                     Inl e \<Rightarrow> Inl e
                   | Inr g \<Rightarrow> Inr (s\<lparr>open_list := open_list s @ [neighbor'], GRID := g\<rparr>)))
          else Inr s)"

text \<open>
  The rest of a step once the node \<open>cur\<close> has been taken out of \<open>open\<close>, leaving \<open>rest\<close>.
\<close>

definition expand :: "(state \<Rightarrow> node \<Rightarrow> error + state) \<Rightarrow> state \<Rightarrow> node \<Rightarrow> node list
    \<Rightarrow> error + (result \<times> state)" where
  "expand body s cur rest =
     (case close_node s cur rest of Inl e \<Rightarrow> Inl e
      | Inr s1 \<Rightarrow>
          if node_eq cur (END s1) then Inr (Success, s1)
          else (case for_each body (getNeighbors (DIAGONAL s1) cur) s1 of Inl e \<Rightarrow> Inl e
                | Inr s2 \<Rightarrow> Inr (Continuing, s2)))"

definition DFS :: "state \<Rightarrow> error + (result \<times> state)" where
  "DFS s =
     (if open_list s = [] then Inr (Failure, s)
      else expand admit s (last (open_list s)) (butlast (open_list s)))"

definition BFS :: "state \<Rightarrow> error + (result \<times> state)" where
  "BFS s =
     (if open_list s = [] then Inr (Failure, s)
      else expand admit s (hd (open_list s)) (tl (open_list s)))"

text \<open>\<open>list.sort\<close> is stable, as \<open>sort_key\<close> is, and a stable sort has one result.\<close>

definition Greedy :: "state \<Rightarrow> error + (result \<times> state)" where
  "Greedy s =
     (if open_list s = [] then Inr (Failure, s)
      else (let sorted_open = sort_key hCost (open_list s)
            in expand Greedy_admit s (hd sorted_open) (tl sorted_open)))"

definition AStar :: "state \<Rightarrow> error + (result \<times> state)" where
  "AStar s =
     (if open_list s = [] then Inr (Failure, s)
      else (let sorted_open = sort_key fCost (open_list s)
            in expand (AStar_admit (hd sorted_open)) s (hd sorted_open) (tl sorted_open)))"

text \<open>\<open>ALGORITHM\<close> holds one of the four functions; \<open>ALGORITHM()\<close> calls it.\<close>

datatype algorithm = AlgDFS | AlgBFS | AlgGreedy | AlgAStar

fun step :: "algorithm \<Rightarrow> state \<Rightarrow> error + (result \<times> state)" where
  "step AlgDFS s = DFS s"
| "step AlgBFS s = BFS s"
| "step AlgGreedy s = Greedy s"
| "step AlgAStar s = AStar s"

text \<open>
  Calling the step function again and again, as the game loop does while \<open>searching\<close>
  is set: at most \<open>n\<close> calls, stopping at the first call that returns \<open>True\<close> or \<open>False\<close>.
  The result is \<open>Continuing\<close> when all \<open>n\<close> calls returned nothing.
\<close>

fun run :: "algorithm \<Rightarrow> nat \<Rightarrow> state \<Rightarrow> error + (result \<times> state)" where
  "run alg 0 s = Inr (Continuing, s)"
| "run alg (Suc n) s =
     (case step alg s of Inl e \<Rightarrow> Inl e
      | Inr (r, s') \<Rightarrow> if r = Continuing then run alg n s' else Inr (r, s'))"

text \<open>\<open>n\<close> calls of the step function whatever they return.\<close>

fun steps :: "algorithm \<Rightarrow> nat \<Rightarrow> state \<Rightarrow> error + state" where
  "steps alg 0 s = Inr s"
| "steps alg (Suc n) s =
     (case step alg s of Inl e \<Rightarrow> Inl e | Inr (r, s') \<Rightarrow> steps alg n s')"

section \<open>Path reconstruction\<close>

text \<open>
  The \<open>while\<close> loop of \<open>reconstructPath\<close>. When no node of \<open>closed\<close> equals the parent the
  \<open>for\<close> loop ends without a \<open>break\<close> and the \<open>while\<close> loop repeats with the same variables
  for ever: the value is then \<open>None\<close>.
\<close>

partial_function (option) walk :: "node list \<Rightarrow> grid \<Rightarrow> node \<Rightarrow> node option \<Rightarrow> (error + grid) option" where
  "walk closed g cur par =
     (case par of None \<Rightarrow> Some (Inr g)
      | Some p \<Rightarrow>
          (case grid_set g (node_y cur) (node_x cur) FinalPath of Inl e \<Rightarrow> Some (Inl e)
           | Inr g' \<Rightarrow>
               (case find (\<lambda>node. node_eq p node) closed of
                  None \<Rightarrow> walk closed g' cur par
                | Some node \<Rightarrow> walk closed g' node (parent node))))"

declare walk.simps [code]

definition reconstructPath :: "state \<Rightarrow> (error + state) option" where
  "reconstructPath s =
     (if closed_list s = [] then Some (Inl IndexError)
      else
        (let cur = last (closed_list s); closed' = butlast (closed_list s)
         in case walk closed' (GRID s) cur (parent cur) of None \<Rightarrow> None
            | Some (Inl e) \<Rightarrow> Some (Inl e)
            | Some (Inr g) \<Rightarrow>
                (case grid_set g (node_y (START s)) (node_x (START s)) StartTile of
                   Inl e \<Rightarrow> Some (Inl e)
                 | Inr g1 \<Rightarrow>
                     (case grid_set g1 (node_y (END s)) (node_x (END s)) EndTile of
                        Inl e \<Rightarrow> Some (Inl e)
                      | Inr g2 \<Rightarrow> Some (Inr (s\<lparr>closed_list := closed', GRID := g2\<rparr>))))))"

section \<open>Grid set-up and the editing operations\<close>

text \<open>
  \<open>GRID_WIDTH\<close> and \<open>GRID_HEIGHT\<close> are module constants. The operations that read them
  take them as the parameters \<open>W\<close> and \<open>H\<close>, so that what is proved holds for every grid
  size, the program's own included.
\<close>

definition WINDOW_HEIGHT :: int where "WINDOW_HEIGHT = 600"
definition TILE_SIZE :: int where "TILE_SIZE = 20"
definition GRID_WIDTH :: int where "GRID_WIDTH = WINDOW_HEIGHT div TILE_SIZE"
definition GRID_HEIGHT :: int where "GRID_HEIGHT = WINDOW_HEIGHT div TILE_SIZE"

definition inGrid :: "int \<Rightarrow> int \<Rightarrow> int \<Rightarrow> int \<Rightarrow> bool" where
  "inGrid W H x y = ((x > 0 \<and> x < W - 1) \<and> (y > 0 \<and> y < H - 1))"

definition getCoordsFromPosition :: "int \<Rightarrow> int \<Rightarrow> int \<times> int" where
  "getCoordsFromPosition xPos yPos = (yPos div TILE_SIZE, xPos div TILE_SIZE)"

text \<open>\<open>setStart\<close> and \<open>setEnd\<close>: the old node is \<open>None\<close> during the set-up in \<open>main\<close>.\<close>

definition setStart :: "grid \<Rightarrow> node option \<Rightarrow> int \<Rightarrow> int \<Rightarrow> error + (grid \<times> node)" where
  "setStart g old x y =
     (case (case old of None \<Rightarrow> Inr g
            | Some st \<Rightarrow> grid_set g (node_y st) (node_x st) Path) of Inl e \<Rightarrow> Inl e
      | Inr g1 \<Rightarrow> (case grid_set g1 y x StartTile of Inl e \<Rightarrow> Inl e
                  | Inr g2 \<Rightarrow> Inr (g2, Node y x None 0 0)))"

definition setEnd :: "grid \<Rightarrow> node option \<Rightarrow> int \<Rightarrow> int \<Rightarrow> error + (grid \<times> node)" where
  "setEnd g old x y =
     (case (case old of None \<Rightarrow> Inr g
            | Some en \<Rightarrow> grid_set g (node_y en) (node_x en) Path) of Inl e \<Rightarrow> Inl e
      | Inr g1 \<Rightarrow> (case grid_set g1 y x EndTile of Inl e \<Rightarrow> Inl e
                  | Inr g2 \<Rightarrow> Inr (g2, Node y x None 0 0)))"

text \<open>The default grid set-up of \<open>main\<close>, up to the first iteration of the game loop.\<close>

definition border_rows :: "int \<Rightarrow> grid \<Rightarrow> int \<Rightarrow> error + grid" where
  "border_rows H g x =
     (case grid_set g 0 x Wall of Inl e \<Rightarrow> Inl e | Inr g1 \<Rightarrow> grid_set g1 (H - 1) x Wall)"

definition border_cols :: "int \<Rightarrow> grid \<Rightarrow> int \<Rightarrow> error + grid" where
  "border_cols W g y =
     (case grid_set g y 0 Wall of Inl e \<Rightarrow> Inl e | Inr g1 \<Rightarrow> grid_set g1 y (W - 1) Wall)"

definition main_setup :: "int \<Rightarrow> int \<Rightarrow> error + state" where
  "main_setup W H =
     (let g0 = replicate (nat H) (replicate (nat W) Path)
      in case for_each (border_rows H) [0..W - 1] g0 of Inl e \<Rightarrow> Inl e
         | Inr g1 \<Rightarrow>
             (case for_each (border_cols W) [0..H - 1] g1 of Inl e \<Rightarrow> Inl e
              | Inr g2 \<Rightarrow>
                  (case setStart g2 None 1 1 of Inl e \<Rightarrow> Inl e
                   | Inr (g3, st) \<Rightarrow>
                       (case setEnd g3 None (W - 2) (H - 2) of Inl e \<Rightarrow> Inl e
                        | Inr (g4, en) \<Rightarrow>
                            Inr \<lparr>GRID = g4, START = st, END = en, DIAGONAL = True,
                                 open_list = [], closed_list = [], searching = False\<rparr>))))"

text \<open>
  \<open>mouseHandler\<close>, from the window position of the event and the button number
  (1 is the left button, 3 the right one).
\<close>

definition mouseHandler :: "int \<Rightarrow> int \<Rightarrow> state \<Rightarrow> int \<times> int \<Rightarrow> int \<Rightarrow> error + state" where
  "mouseHandler W H s pos clickType =
     (let (y, x) = getCoordsFromPosition (fst pos) (snd pos)
      in if inGrid W H x y then
           (case grid_get (GRID s) y x of Inl e \<Rightarrow> Inl e
            | Inr v \<Rightarrow>
                if v \<in> {Path, Wall} then
                  (if clickType = 1 then
                     (case grid_set (GRID s) y x Wall of Inl e \<Rightarrow> Inl e
                      | Inr g \<Rightarrow> Inr (s\<lparr>GRID := g\<rparr>))
                   else if clickType = 3 then
                     (case grid_set (GRID s) y x Path of Inl e \<Rightarrow> Inl e
                      | Inr g \<Rightarrow> Inr (s\<lparr>GRID := g\<rparr>))
                   else Inr s)
                else Inr s)
         else Inr s)"

text \<open>The cells visited by the nested loops of \<open>clear\<close>, \<open>reset\<close> and \<open>start\<close>, in their order.\<close>

definition inner_cells :: "int \<Rightarrow> int \<Rightarrow> (int \<times> int) list" where
  "inner_cells W H = concat (map (\<lambda>x. map (\<lambda>y. (x, y)) [1..H - 2]) [1..W - 2])"

definition mark_ends :: "state \<Rightarrow> grid \<Rightarrow> error + grid" where
  "mark_ends s g =
     (case grid_set g (node_y (START s)) (node_x (START s)) StartTile of Inl e \<Rightarrow> Inl e
      | Inr g1 \<Rightarrow> grid_set g1 (node_y (END s)) (node_x (END s)) EndTile)"

definition clear_cell :: "grid \<Rightarrow> int \<times> int \<Rightarrow> error + grid" where
  "clear_cell g xy = grid_set g (snd xy) (fst xy) Path"

definition clear :: "int \<Rightarrow> int \<Rightarrow> state \<Rightarrow> error + state" where
  "clear W H s =
     (case for_each clear_cell (inner_cells W H) (GRID s) of Inl e \<Rightarrow> Inl e
      | Inr g \<Rightarrow> (case mark_ends s g of Inl e \<Rightarrow> Inl e
                 | Inr g' \<Rightarrow> Inr (s\<lparr>GRID := g', searching := False\<rparr>)))"

definition unmark_cell :: "grid \<Rightarrow> int \<times> int \<Rightarrow> error + grid" where
  "unmark_cell g xy =
     (case grid_get g (snd xy) (fst xy) of Inl e \<Rightarrow> Inl e
      | Inr v \<Rightarrow> if v \<in> {Frontier, Visited, FinalPath} then grid_set g (snd xy) (fst xy) Path
                 else Inr g)"

definition reset :: "int \<Rightarrow> int \<Rightarrow> state \<Rightarrow> error + state" where
  "reset W H s =
     (case for_each unmark_cell (inner_cells W H) (GRID s) of Inl e \<Rightarrow> Inl e
      | Inr g \<Rightarrow> (case mark_ends s g of Inl e \<Rightarrow> Inl e
                 | Inr g' \<Rightarrow> Inr (s\<lparr>open_list := [START s], closed_list := [], GRID := g',
                                    searching := False\<rparr>)))"

definition start :: "int \<Rightarrow> int \<Rightarrow> state \<Rightarrow> error + state" where
  "start W H s =
     (case for_each unmark_cell (inner_cells W H) (GRID s) of Inl e \<Rightarrow> Inl e
      | Inr g \<Rightarrow> (case mark_ends s g of Inl e \<Rightarrow> Inl e
                 | Inr g' \<Rightarrow> Inr (s\<lparr>open_list := [START s], closed_list := [], GRID := g',
                                    searching := True\<rparr>)))"

definition tile :: "grid \<Rightarrow> int \<Rightarrow> int \<Rightarrow> int" where
  "tile g r c = g ! nat r ! nat c"

definition upd :: "grid \<Rightarrow> int \<Rightarrow> int \<Rightarrow> int \<Rightarrow> grid" where
  "upd g r c v = g[nat r := (g ! nat r)[nat c := v]]"

definition wf_dims :: "int \<Rightarrow> int \<Rightarrow> grid \<Rightarrow> bool" where
  "wf_dims W H g = (int (length g) = H \<and> (\<forall>row \<in> set g. int (length row) = W))"

definition in_range :: "int \<Rightarrow> int \<Rightarrow> int \<Rightarrow> int \<Rightarrow> bool" where
  "in_range W H r c = (0 \<le> r \<and> r < H \<and> 0 \<le> c \<and> c < W)"

definition node_tile :: "grid \<Rightarrow> node \<Rightarrow> int" where
  "node_tile g n = tile g (node_y n) (node_x n)"

definition node_upd :: "grid \<Rightarrow> node \<Rightarrow> int \<Rightarrow> grid" where
  "node_upd g n v = upd g (node_y n) (node_x n) v"

definition node_in_range :: "int \<Rightarrow> int \<Rightarrow> node \<Rightarrow> bool" where
  "node_in_range W H n = in_range W H (node_y n) (node_x n)"

definition mark :: "node list \<Rightarrow> grid \<Rightarrow> grid" where
  "mark ns g = foldl (\<lambda>g n. node_upd g n Frontier) g ns"

definition fresh :: "state \<Rightarrow> node \<Rightarrow> bool" where
  "fresh s n = (node_tile (GRID s) n \<noteq> Wall \<and> \<not> node_in n (closed_list s) \<and> \<not> node_in n (open_list s))"

definition with_costs :: "int \<Rightarrow> (node \<Rightarrow> int) \<Rightarrow> node \<Rightarrow> node" where
  "with_costs g h n = Node (node_y n) (node_x n) (parent n) g (h n)"

definition hcost :: "node \<Rightarrow> bool \<Rightarrow> node \<Rightarrow> int" where
  "hcost e d n = (let dy = \<bar>node_y e - node_y n\<bar>; dx = \<bar>node_x e - node_x n\<bar>
      in if d then max dy dx else dy + dx)"

definition known :: "state \<Rightarrow> node \<Rightarrow> bool" where
  "known s n = (node_tile (GRID s) n \<noteq> Wall \<and> \<not> node_in n (closed_list s) \<and> node_in n (open_list s))"

definition relaxed :: "node \<Rightarrow> node \<Rightarrow> bool \<Rightarrow> node \<Rightarrow> node" where
  "relaxed cur e d n = Node (node_y n) (node_x n) (Some cur) (gCost cur + 1) (hcost e d n)"

definition relax :: "node \<Rightarrow> node \<Rightarrow> bool \<Rightarrow> node list \<Rightarrow> node \<Rightarrow> node" where
  "relax cur e d ks n = (if node_in n ks \<and> gCost cur + 1 < gCost n then relaxed cur e d n else n)"

fun removed :: "algorithm \<Rightarrow> node list \<Rightarrow> node" where
  "removed AlgDFS ns = last ns"
| "removed AlgBFS ns = hd ns"
| "removed AlgGreedy ns = hd (sort_key hCost ns)"
| "removed AlgAStar ns = hd (sort_key fCost ns)"

fun remaining :: "algorithm \<Rightarrow> node list \<Rightarrow> node list" where
  "remaining AlgDFS ns = butlast ns"
| "remaining AlgBFS ns = tl ns"
| "remaining AlgGreedy ns = tl (sort_key hCost ns)"
| "remaining AlgAStar ns = tl (sort_key fCost ns)"

fun loop_body :: "algorithm \<Rightarrow> node \<Rightarrow> state \<Rightarrow> node \<Rightarrow> error + state" where
  "loop_body AlgDFS cur = admit"
| "loop_body AlgBFS cur = admit"
| "loop_body AlgGreedy cur = Greedy_admit"
| "loop_body AlgAStar cur = AStar_admit cur"

definition closed_state :: "state \<Rightarrow> node \<Rightarrow> node list \<Rightarrow> state" where
  "closed_state s cur rest =
     s\<lparr>open_list := rest, closed_list := closed_list s @ [cur], GRID := node_upd (GRID s) cur Visited\<rparr>"

definition expanded :: "node \<Rightarrow> node list \<Rightarrow> state \<Rightarrow> state \<Rightarrow> bool" where
  "expanded cur rest s s' \<longleftrightarrow> (\<exists>olds news.
     s' = s\<lparr>open_list := olds @ news, closed_list := closed_list s @ [cur],
            GRID := mark news (node_upd (GRID s) cur Visited)\<rparr> \<and>
     list_all2 (\<lambda>a b. getPos a = getPos b \<and> (a = b \<or> parent a = Some cur)) olds rest \<and>
     distinct (map getPos news) \<and>
     (\<forall>n \<in> set news. parent n = Some cur \<and>
         getPos n \<in> getPos ` set (getNeighbors (DIAGONAL s) cur) \<and>
         node_tile (GRID s) n \<noteq> Wall \<and>
         getPos n \<notin> getPos ` set (closed_list s @ cur # rest)))"

definition wf_grid :: "int \<Rightarrow> int \<Rightarrow> grid \<Rightarrow> bool" where
  "wf_grid W H g = (wf_dims W H g \<and> (\<forall>r c. in_range W H r c \<and> \<not> inGrid W H c r \<longrightarrow> tile g r c = Wall))"

definition interior :: "int \<Rightarrow> int \<Rightarrow> node \<Rightarrow> bool" where
  "interior W H n = inGrid W H (node_x n) (node_y n)"

definition geo_inv :: "int \<Rightarrow> int \<Rightarrow> state \<Rightarrow> bool" where
  "geo_inv W H s = (wf_grid W H (GRID s) \<and> interior W H (START s) \<and> interior W H (END s) \<and>
     (\<forall>n \<in> set (open_list s @ closed_list s). interior W H n))"

definition search_inv :: "int \<Rightarrow> int \<Rightarrow> state \<Rightarrow> bool" where
  "search_inv W H s = (geo_inv W H s \<and> distinct (map getPos (open_list s @ closed_list s)) \<and>
     (\<forall>n \<in> set (open_list s @ closed_list s). node_tile (GRID s) n \<noteq> Wall))"

definition app_inv :: "int \<Rightarrow> int \<Rightarrow> state \<Rightarrow> bool" where
  "app_inv W H s = (wf_grid W H (GRID s) \<and> interior W H (START s) \<and> interior W H (END s) \<and>
     getPos (START s) \<noteq> getPos (END s) \<and> parent (START s) = None)"

definition seeded :: "int \<Rightarrow> int \<Rightarrow> state \<Rightarrow> bool" where
  "seeded W H s = (app_inv W H s \<and> open_list s = [START s] \<and> closed_list s = [] \<and>
     node_tile (GRID s) (START s) = StartTile \<and> node_tile (GRID s) (END s) = EndTile \<and>
     (\<forall>r c. in_range W H r c \<longrightarrow> tile (GRID s) r c \<notin> {Frontier, Visited, FinalPath}))"

function chain :: "node \<Rightarrow> node list" where
  "chain n = n # (case parent n of None \<Rightarrow> [] | Some p \<Rightarrow> chain p)"
  by pat_completeness auto
termination
proof (relation "measure size")
  show "wf (measure size)" by simp
next
  fix n :: node and p assume "parent n = Some p"
  then show "(p, n) \<in> measure size" by (cases n) simp
qed

declare chain.simps [simp del]

definition paint :: "node list \<Rightarrow> grid \<Rightarrow> grid" where
  "paint ns g = foldl (\<lambda>g n. node_upd g n FinalPath) g ns"

definition chain_inv :: "state \<Rightarrow> bool" where
  "chain_inv s = ((\<forall>n \<in> set (open_list s @ closed_list s).
        case parent n of None \<Rightarrow> n = START s | Some p \<Rightarrow> p \<in> set (closed_list s)) \<and>
     (\<forall>i < length (closed_list s). \<forall>p. parent (closed_list s ! i) = Some p \<longrightarrow>
        (\<exists>j < i. closed_list s ! j = p)))"

definition no_final :: "int \<Rightarrow> int \<Rightarrow> state \<Rightarrow> bool" where
  "no_final W H s = (\<forall>r c. in_range W H r c \<longrightarrow> tile (GRID s) r c \<noteq> FinalPath)"

definition run_inv :: "int \<Rightarrow> int \<Rightarrow> state \<Rightarrow> bool" where
  "run_inv W H s = (search_inv W H s \<and> chain_inv s \<and> no_final W H s \<and>
     getPos (START s) \<noteq> getPos (END s))"

text \<open>
  Routes on the grid: two positions (row, column) are orthogonal neighbours when they
  differ by one in exactly one coordinate; a position is passable when it lies on the
  grid and its tile is not a wall, as \<open>isPath\<close> tests; a route is a non-empty list of
  passable positions, each the orthogonal neighbour of the one before.
\<close>

definition orth_adj :: "int \<times> int \<Rightarrow> int \<times> int \<Rightarrow> bool" where
  "orth_adj p q = (\<bar>fst p - fst q\<bar> + \<bar>snd p - snd q\<bar> = 1)"

definition passable :: "int \<Rightarrow> int \<Rightarrow> grid \<Rightarrow> int \<times> int \<Rightarrow> bool" where
  "passable W H g p = (in_range W H (fst p) (snd p) \<and> tile g (fst p) (snd p) \<noteq> Wall)"

definition route :: "int \<Rightarrow> int \<Rightarrow> grid \<Rightarrow> (int \<times> int) list \<Rightarrow> bool" where
  "route W H g ps = (ps \<noteq> [] \<and> list_all (passable W H g) ps \<and> successively orth_adj ps)"

text \<open>The number of nodes on the parent chain of a node, the node itself included.\<close>

definition lev :: "node \<Rightarrow> nat" where
  "lev n = length (chain n)"

text \<open>
  The closed form of a call of \<open>BFS\<close> that removes a node other than the end node: the
  neighbours admitted, and the state the call leaves.
\<close>

definition bfs_news :: "state \<Rightarrow> node list" where
  "bfs_news s =
     filter (fresh (closed_state s (hd (open_list s)) (tl (open_list s))))
       (getNeighbors (DIAGONAL s) (hd (open_list s)))"

definition bfs_next :: "state \<Rightarrow> state" where
  "bfs_next s =
     (closed_state s (hd (open_list s)) (tl (open_list s)))
       \<lparr>open_list := tl (open_list s) @ bfs_news s,
        GRID := mark (bfs_news s) (node_upd (GRID s) (hd (open_list s)) Visited)\<rparr>"

text \<open>
  What every state of a run of \<open>BFS\<close> with orthogonal movement satisfies, \<open>g0\<close> being the
  grid at the moment the search begins: walls are where they were; a parent is an
  orthogonal neighbour; the frontier is ordered by chain length, its last entry at most
  one longer than its first; closed nodes are no longer than frontier entries; every
  passable orthogonal neighbour of a closed node is in the frontier or closed, with a
  chain at most one longer; no closed node has the end coordinates.
\<close>

definition bfs_inv :: "int \<Rightarrow> int \<Rightarrow> grid \<Rightarrow> state \<Rightarrow> bool" where
  "bfs_inv W H g0 s =
     (run_inv W H s \<and> \<not> DIAGONAL s \<and>
      (\<forall>r c. in_range W H r c \<longrightarrow> (tile (GRID s) r c = Wall \<longleftrightarrow> tile g0 r c = Wall)) \<and>
      (\<forall>n \<in> set (open_list s @ closed_list s). \<forall>p. parent n = Some p \<longrightarrow> orth_adj (getPos p) (getPos n)) \<and>
      sorted (map lev (open_list s)) \<and>
      (open_list s \<noteq> [] \<longrightarrow> lev (last (open_list s)) \<le> lev (hd (open_list s)) + 1) \<and>
      (\<forall>m \<in> set (closed_list s). \<forall>n \<in> set (open_list s). lev m \<le> lev n) \<and>
      (\<forall>m \<in> set (closed_list s). \<forall>q. orth_adj (getPos m) q \<and> passable W H g0 q \<longrightarrow>
          (\<exists>n \<in> set (open_list s @ closed_list s). getPos n = q \<and> lev n \<le> lev m + 1)) \<and>
      START s \<in> set (open_list s @ closed_list s) \<and>
      (\<forall>m \<in> set (closed_list s). \<not> node_eq m (END s)) \<and>
      parent (START s) = None)"

text \<open>
  The positions on the parent chain of the node closed last, from the far end of the
  chain to that node: the path \<open>reconstructPath\<close> walks, in the opposite direction.
\<close>

definition backpointer_route :: "state \<Rightarrow> (int \<times> int) list" where
  "backpointer_route s = rev (map getPos (chain (last (closed_list s))))"

subsection \<open>Example states\<close>

text \<open>
  A 5 x 5 grid whose start tile (1, 1) is walled in, at the moment the search begins
  with orthogonal movement, and the same run after the frontier has emptied.
\<close>

definition blocked_run :: state where
  "blocked_run =
     \<lparr>GRID = [[1, 1, 1, 1, 1], [1, 2, 1, 0, 1], [1, 1, 1, 0, 1], [1, 0, 0, 3, 1], [1, 1, 1, 1, 1]],
      START = Node 1 1 None 0 0, END = Node 3 3 None 0 0, DIAGONAL = False,
      open_list = [Node 1 1 None 0 0], closed_list = [], searching = True\<rparr>"

definition blocked_done :: state where
  "blocked_done =
     \<lparr>GRID = [[1, 1, 1, 1, 1], [1, 5, 1, 0, 1], [1, 1, 1, 0, 1], [1, 0, 0, 3, 1], [1, 1, 1, 1, 1]],
      START = Node 1 1 None 0 0, END = Node 3 3 None 0 0, DIAGONAL = False,
      open_list = [], closed_list = [Node 1 1 None 0 0], searching = True\<rparr>"

text \<open>
  A 5 x 5 grid with an empty interior at the moment the search begins with orthogonal
  movement: start tile (1, 1), end tile (3, 3).
\<close>

definition open_run :: state where
  "open_run =
     \<lparr>GRID = [[1, 1, 1, 1, 1], [1, 2, 0, 0, 1], [1, 0, 0, 0, 1], [1, 0, 0, 3, 1], [1, 1, 1, 1, 1]],
      START = Node 1 1 None 0 0, END = Node 3 3 None 0 0, DIAGONAL = False,
      open_list = [Node 1 1 None 0 0], closed_list = [], searching = True\<rparr>"


text \<open>
  A 5 x 5 grid whose end tile (1, 2) is next to the start tile (1, 1), at the moment the
  search begins, and the same run after one step of \<open>DFS\<close>.
\<close>

definition adjacent_run :: state where
  "adjacent_run =
     \<lparr>GRID = [[1, 1, 1, 1, 1], [1, 2, 3, 0, 1], [1, 0, 0, 0, 1], [1, 0, 0, 0, 1], [1, 1, 1, 1, 1]],
      START = Node 1 1 None 0 0, END = Node 1 2 None 0 0, DIAGONAL = False,
      open_list = [Node 1 1 None 0 0], closed_list = [], searching = True\<rparr>"

definition adjacent_after :: state where
  "adjacent_after =
     \<lparr>GRID = [[1, 1, 1, 1, 1], [1, 5, 4, 0, 1], [1, 4, 0, 0, 1], [1, 0, 0, 0, 1], [1, 1, 1, 1, 1]],
      START = Node 1 1 None 0 0, END = Node 1 2 None 0 0, DIAGONAL = False,
      open_list = [Node 1 2 (Some (Node 1 1 None 0 0)) 0 0, Node 2 1 (Some (Node 1 1 None 0 0)) 0 0],
      closed_list = [Node 1 1 None 0 0], searching = True\<rparr>"

text \<open>
  A 6 x 6 grid at the moment the search begins with orthogonal movement, the same run
  after six steps of \<open>AStar\<close>, and after the seventh. The seventh step removes the node
  at (2, 1), whose neighbour (3, 1) is in the frontier with the g-cost 5.
\<close>

definition relax_start :: state where
  "relax_start =
     \<lparr>GRID = [[1, 1, 1, 1, 1, 1], [1, 0, 2, 0, 1, 1], [1, 0, 1, 0, 1, 1], [1, 0, 0, 0, 1, 1],
              [1, 0, 0, 1, 3, 1], [1, 1, 1, 1, 1, 1]],
      START = Node 1 2 None 0 0, END = Node 4 4 None 0 0, DIAGONAL = False,
      open_list = [Node 1 2 None 0 0], closed_list = [], searching = True\<rparr>"

definition relax_run :: state where
  "relax_run =
     (let a = Node 1 2 None 0 0; b = Node 1 3 (Some a) 1 4; c = Node 2 3 (Some b) 2 3;
          d = Node 3 3 (Some c) 3 2; e = Node 1 1 (Some a) 1 6; f = Node 3 2 (Some d) 4 3
      in \<lparr>GRID = [[1, 1, 1, 1, 1, 1], [1, 5, 5, 5, 1, 1], [1, 4, 1, 5, 1, 1], [1, 4, 5, 5, 1, 1],
                  [1, 0, 4, 1, 3, 1], [1, 1, 1, 1, 1, 1]],
          START = a, END = Node 4 4 None 0 0, DIAGONAL = False,
          open_list = [Node 2 1 (Some e) 2 5, Node 4 2 (Some f) 5 2, Node 3 1 (Some f) 5 4],
          closed_list = [a, b, c, d, e, f], searching = True\<rparr>)"

definition relax_after :: state where
  "relax_after =
     (let a = Node 1 2 None 0 0; b = Node 1 3 (Some a) 1 4; c = Node 2 3 (Some b) 2 3;
          d = Node 3 3 (Some c) 3 2; e = Node 1 1 (Some a) 1 6; f = Node 3 2 (Some d) 4 3;
          g = Node 2 1 (Some e) 2 5
      in \<lparr>GRID = [[1, 1, 1, 1, 1, 1], [1, 5, 5, 5, 1, 1], [1, 5, 1, 5, 1, 1], [1, 4, 5, 5, 1, 1],
                  [1, 0, 4, 1, 3, 1], [1, 1, 1, 1, 1, 1]],
          START = a, END = Node 4 4 None 0 0, DIAGONAL = False,
          open_list = [Node 4 2 (Some f) 5 2, Node 3 1 (Some g) 3 4],
          closed_list = [a, b, c, d, e, f, g], searching = True\<rparr>)"

text \<open>
  A 5 x 5 grid with an empty interior whose end tile (1, 3) is two tiles to the right of
  the start tile (1, 1), at the moment the search begins with orthogonal movement.
\<close>

definition near_run :: state where
  "near_run =
     \<lparr>GRID = [[1, 1, 1, 1, 1], [1, 2, 0, 3, 1], [1, 0, 0, 0, 1], [1, 0, 0, 0, 1], [1, 1, 1, 1, 1]],
      START = Node 1 1 None 0 0, END = Node 1 3 None 0 0, DIAGONAL = False,
      open_list = [Node 1 1 None 0 0], closed_list = [], searching = True\<rparr>"

text \<open>The run above after the four steps of \<open>BFS\<close> that end in \<open>Success\<close>.\<close>

definition near_done :: state where
  "near_done =
     (let a = Node 1 1 None 0 0; b = Node 1 2 (Some a) 0 0; c = Node 2 1 (Some a) 0 0
      in \<lparr>GRID = [[1, 1, 1, 1, 1], [1, 5, 5, 5, 1], [1, 5, 4, 0, 1], [1, 4, 0, 0, 1], [1, 1, 1, 1, 1]],
          START = a, END = Node 1 3 None 0 0, DIAGONAL = False,
          open_list = [Node 2 2 (Some b) 0 0, Node 3 1 (Some c) 0 0],
          closed_list = [a, b, c, Node 1 3 (Some b) 0 0], searching = True\<rparr>)"

text \<open>
  A 5 x 5 grid whose start tile (1, 1) and end tile (1, 3) are separated by a wall two
  tiles long, at the moment the search begins with orthogonal movement, and the same run
  after the seven steps of \<open>BFS\<close> that end in \<open>Success\<close>.
\<close>

definition detour_run :: state where
  "detour_run =
     \<lparr>GRID = [[1, 1, 1, 1, 1], [1, 2, 1, 3, 1], [1, 0, 1, 0, 1], [1, 0, 0, 0, 1], [1, 1, 1, 1, 1]],
      START = Node 1 1 None 0 0, END = Node 1 3 None 0 0, DIAGONAL = False,
      open_list = [Node 1 1 None 0 0], closed_list = [], searching = True\<rparr>"

definition detour_done :: state where
  "detour_done =
     (let a = Node 1 1 None 0 0; b = Node 2 1 (Some a) 0 0; c = Node 3 1 (Some b) 0 0;
          d = Node 3 2 (Some c) 0 0; e = Node 3 3 (Some d) 0 0; f = Node 2 3 (Some e) 0 0
      in \<lparr>GRID = [[1, 1, 1, 1, 1], [1, 5, 1, 5, 1], [1, 5, 1, 5, 1], [1, 5, 5, 5, 1], [1, 1, 1, 1, 1]],
          START = a, END = Node 1 3 None 0 0, DIAGONAL = False,
          open_list = [], closed_list = [a, b, c, d, e, f, Node 1 3 (Some f) 0 0],
          searching = True\<rparr>)"

lemma py_index_ok: "0 \<le> i \<Longrightarrow> i < int (length xs) \<Longrightarrow> py_index xs i = Inr (nat i)"
  by (simp add: py_index_def)

lemma wf_dims_row: "wf_dims W H g \<Longrightarrow> 0 \<le> r \<Longrightarrow> r < H \<Longrightarrow> int (length (g ! nat r)) = W"
  by (auto simp: wf_dims_def)

lemma grid_get_ok:
  "wf_dims W H g \<Longrightarrow> in_range W H r c \<Longrightarrow> grid_get g r c = Inr (tile g r c)"
  using wf_dims_row[of W H g r] by (simp add: grid_get_def tile_def in_range_def py_index_ok wf_dims_def)

lemma grid_set_ok:
  "wf_dims W H g \<Longrightarrow> in_range W H r c \<Longrightarrow> grid_set g r c v = Inr (upd g r c v)"
  using wf_dims_row[of W H g r] by (simp add: grid_set_def upd_def in_range_def py_index_ok wf_dims_def)

lemma wf_dims_upd: "wf_dims W H g \<Longrightarrow> wf_dims W H (upd g r c v)"
proof -
  assume a: "wf_dims W H g"
  have "\<And>row. row \<in> set (g[nat r := (g ! nat r)[nat c := v]]) \<Longrightarrow> int (length row) = W"
  proof -
    fix row assume b: "row \<in> set (g[nat r := (g ! nat r)[nat c := v]])"
    then have "row \<in> insert ((g ! nat r)[nat c := v]) (set g)"
      using set_update_subset_insert by fastforce
    then show "int (length row) = W"
    proof
      assume "row = (g ! nat r)[nat c := v]"
      moreover have "nat r < length g \<Longrightarrow> int (length (g ! nat r)) = W" using a by (simp add: wf_dims_def)
      moreover have "\<not> nat r < length g \<Longrightarrow> g[nat r := (g ! nat r)[nat c := v]] = g" by (simp add: list_update_beyond)
      ultimately show ?thesis using a b
        by (cases "nat r < length g") (auto simp: wf_dims_def)
    next
      assume "row \<in> set g" then show ?thesis using a by (simp add: wf_dims_def)
    qed
  qed
  then show ?thesis using a by (simp add: wf_dims_def upd_def)
qed

lemma tile_upd:
  "wf_dims W H g \<Longrightarrow> in_range W H r c \<Longrightarrow> in_range W H r' c' \<Longrightarrow>
   tile (upd g r c v) r' c' = (if r' = r \<and> c' = c then v else tile g r' c')"
proof -
  assume a: "wf_dims W H g" "in_range W H r c" "in_range W H r' c'"
  have 1: "nat r < length g" "nat r' < length g" using a by (auto simp: wf_dims_def in_range_def)
  have 2: "nat c < length (g ! nat r)" using wf_dims_row[of W H g r] a by (auto simp: in_range_def)
  have 3: "nat r' = nat r \<longleftrightarrow> r' = r" "nat c' = nat c \<longleftrightarrow> c' = c" using a by (auto simp: in_range_def)
  show ?thesis using 1 2 3 by (auto simp: tile_def upd_def nth_list_update)
qed

lemma isPath_ok:
  "wf_dims W H g \<Longrightarrow> node_in_range W H n \<Longrightarrow> isPath g n = Inr (node_tile g n \<noteq> Wall)"
  by (simp add: isPath_def node_in_range_def node_tile_def grid_get_ok)

lemma node_set_ok:
  "wf_dims W H g \<Longrightarrow> node_in_range W H n \<Longrightarrow>
   grid_set g (node_y n) (node_x n) v = Inr (node_upd g n v)"
  by (simp add: node_in_range_def node_upd_def grid_set_ok)

lemma wf_dims_node_upd: "wf_dims W H g \<Longrightarrow> wf_dims W H (node_upd g n v)"
  by (simp add: node_upd_def wf_dims_upd)

lemma node_tile_upd:
  "wf_dims W H g \<Longrightarrow> node_in_range W H n \<Longrightarrow> node_in_range W H m \<Longrightarrow>
   node_tile (node_upd g n v) m = (if getPos m = getPos n then v else node_tile g m)"
  by (auto simp: node_tile_def node_upd_def node_in_range_def getPos_def tile_upd)

lemma tile_node_upd:
  "wf_dims W H g \<Longrightarrow> node_in_range W H n \<Longrightarrow> in_range W H r c \<Longrightarrow>
   tile (node_upd g n v) r c = (if (r, c) = getPos n then v else tile g r c)"
  by (auto simp: node_upd_def node_in_range_def getPos_def tile_upd)

lemma node_eq_getPos: "node_eq a b \<longleftrightarrow> getPos a = getPos b"
  by (auto simp: node_eq_def getPos_def)

lemma node_in_getPos: "node_in n ns \<longleftrightarrow> getPos n \<in> getPos ` set ns"
  unfolding node_in_def node_eq_getPos image_iff by metis

lemma wf_dims_mark: "wf_dims W H g \<Longrightarrow> wf_dims W H (mark ns g)"
  unfolding mark_def by (induction ns arbitrary: g) (simp_all add: wf_dims_node_upd)

lemma mark_Nil [simp]: "mark [] g = g" by (simp add: mark_def)
lemma mark_Cons: "mark (n # ns) g = mark ns (node_upd g n Frontier)" by (simp add: mark_def)
lemma mark_append: "mark (xs @ ys) g = mark ys (mark xs g)" by (simp add: mark_def)

lemma tile_mark:
  "wf_dims W H g \<Longrightarrow> \<forall>n \<in> set ns. node_in_range W H n \<Longrightarrow> in_range W H r c \<Longrightarrow>
   tile (mark ns g) r c = (if (r, c) \<in> getPos ` set ns then Frontier else tile g r c)"
proof (induction ns arbitrary: g)
  case Nil then show ?case by simp
next
  case (Cons n ns)
  have "tile (mark ns (node_upd g n Frontier)) r c =
        (if (r, c) \<in> getPos ` set ns then Frontier else tile (node_upd g n Frontier) r c)"
    using Cons.prems by (intro Cons.IH) (simp_all add: wf_dims_node_upd)
  then show ?case using Cons.prems by (simp add: mark_Cons tile_node_upd)
qed

lemma nbrs_distinct: "distinct (map getPos (getNeighbors d n))"
  by (simp add: getNeighbors_def Let_def getPos_def)

lemma nbrs_fields:
  "m \<in> set (getNeighbors d n) \<Longrightarrow> parent m = Some n \<and> gCost m = 0 \<and> hCost m = 0"
  by (auto simp: getNeighbors_def Let_def split: if_splits)

lemma nbrs_not_self: "m \<in> set (getNeighbors d n) \<Longrightarrow> getPos m \<noteq> getPos n"
  by (auto simp: getNeighbors_def Let_def getPos_def split: if_splits)

lemma nbrs_in_range:
  "inGrid W H (node_x n) (node_y n) \<Longrightarrow> m \<in> set (getNeighbors d n) \<Longrightarrow> node_in_range W H m"
  by (auto simp: getNeighbors_def Let_def inGrid_def node_in_range_def in_range_def split: if_splits)

lemma inGrid_in_range: "inGrid W H (node_x n) (node_y n) \<Longrightarrow> node_in_range W H n"
  by (auto simp: inGrid_def node_in_range_def in_range_def)

lemma fresh_step:
  assumes "wf_dims W H (GRID s)" "node_in_range W H n" "node_in_range W H m"
    and "getPos m \<noteq> getPos n" "getPos n' = getPos n"
  shows "fresh (s\<lparr>open_list := open_list s @ [n'], GRID := node_upd (GRID s) n Frontier\<rparr>) m = fresh s m"
  using assms by (auto simp: fresh_def node_tile_upd node_in_getPos)

lemma for_each_fresh:
  assumes body: "\<And>s n. wf_dims W H (GRID s) \<Longrightarrow> node_in_range W H n \<Longrightarrow> END s = e \<Longrightarrow> DIAGONAL s = d \<Longrightarrow>
        body s n = Inr (if fresh s n
                        then s\<lparr>open_list := open_list s @ [f n], GRID := node_upd (GRID s) n Frontier\<rparr>
                        else s)"
    and f: "\<And>n. getPos (f n) = getPos n"
  shows "wf_dims W H (GRID s) \<Longrightarrow> \<forall>n \<in> set ns. node_in_range W H n \<Longrightarrow> distinct (map getPos ns) \<Longrightarrow>
         END s = e \<Longrightarrow> DIAGONAL s = d \<Longrightarrow>
         for_each body ns s =
           Inr (s\<lparr>open_list := open_list s @ map f (filter (fresh s) ns),
                  GRID := mark (filter (fresh s) ns) (GRID s)\<rparr>)"
proof (induction ns arbitrary: s)
  case Nil
  then show ?case by simp
next
  case (Cons n ns)
  have nr: "node_in_range W H n" using Cons.prems by simp
  have b: "body s n = Inr (if fresh s n
                        then s\<lparr>open_list := open_list s @ [f n], GRID := node_upd (GRID s) n Frontier\<rparr>
                        else s)"
    using Cons.prems nr by (intro body) simp_all
  show ?case
  proof (cases "fresh s n")
    case False
    then show ?thesis using b Cons by simp
  next
    case True
    let ?s1 = "s\<lparr>open_list := open_list s @ [f n], GRID := node_upd (GRID s) n Frontier\<rparr>"
    have wf1: "wf_dims W H (GRID ?s1)" using Cons.prems by (simp add: wf_dims_node_upd)
    have fr: "\<And>m. m \<in> set ns \<Longrightarrow> fresh ?s1 m = fresh s m"
    proof -
      fix m assume m: "m \<in> set ns"
      then have "getPos m \<noteq> getPos n" using Cons.prems(3) by (metis distinct.simps(2) image_eqI list.simps(9) set_map)
      moreover have "node_in_range W H m" using m Cons.prems by simp
      ultimately show "fresh ?s1 m = fresh s m"
        using fresh_step[OF Cons.prems(1) nr _ _ f[of n]] by blast
    qed
    then have fl: "filter (fresh ?s1) ns = filter (fresh s) ns"
      by (intro filter_cong) auto
    have "for_each body ns ?s1 =
           Inr (?s1\<lparr>open_list := open_list ?s1 @ map f (filter (fresh ?s1) ns),
                  GRID := mark (filter (fresh ?s1) ns) (GRID ?s1)\<rparr>)"
      using Cons.prems wf1 by (intro Cons.IH) simp_all
    then show ?thesis using b True fl by (simp add: mark_Cons)
  qed
qed

lemma admit_ok:
  "wf_dims W H (GRID s) \<Longrightarrow> node_in_range W H n \<Longrightarrow>
   admit s n = Inr (if fresh s n
                    then s\<lparr>open_list := open_list s @ [n], GRID := node_upd (GRID s) n Frontier\<rparr>
                    else s)"
  by (auto simp: admit_def isPath_ok node_set_ok fresh_def)

lemma HCost_cong: "END s' = END s \<Longrightarrow> DIAGONAL s' = DIAGONAL s \<Longrightarrow> HCost s' = HCost s"
  by (auto simp: HCost_def fun_eq_iff)

lemma HCost_hcost: "HCost s n = hcost (END s) (DIAGONAL s) n"
  by (simp add: HCost_def hcost_def)

lemma Greedy_admit_ok:
  "wf_dims W H (GRID s) \<Longrightarrow> node_in_range W H n \<Longrightarrow>
   Greedy_admit s n = Inr (if fresh s n
                    then s\<lparr>open_list := open_list s @ [with_costs (gCost n) (hcost (END s) (DIAGONAL s)) n],
                           GRID := node_upd (GRID s) n Frontier\<rparr>
                    else s)"
  by (auto simp: Greedy_admit_def isPath_ok node_set_ok fresh_def with_costs_def HCost_hcost)

lemma getPos_with_costs [simp]: "getPos (with_costs g h n) = getPos n"
  by (simp add: with_costs_def getPos_def)

lemma for_each_admit:
  "wf_dims W H (GRID s) \<Longrightarrow> \<forall>n \<in> set ns. node_in_range W H n \<Longrightarrow> distinct (map getPos ns) \<Longrightarrow>
   for_each admit ns s =
     Inr (s\<lparr>open_list := open_list s @ filter (fresh s) ns,
            GRID := mark (filter (fresh s) ns) (GRID s)\<rparr>)"
  using for_each_fresh[where body = admit and f = "\<lambda>n. n" and W = W and H = H and s = s and ns = ns
      and e = "END s" and d = "DIAGONAL s"]
  by (simp add: admit_ok)

lemma for_each_Greedy_admit:
  "wf_dims W H (GRID s) \<Longrightarrow> \<forall>n \<in> set ns. node_in_range W H n \<Longrightarrow> distinct (map getPos ns) \<Longrightarrow>
   for_each Greedy_admit ns s =
     Inr (s\<lparr>open_list := open_list s @ map (\<lambda>n. with_costs (gCost n) (hcost (END s) (DIAGONAL s)) n) (filter (fresh s) ns),
            GRID := mark (filter (fresh s) ns) (GRID s)\<rparr>)"
  using for_each_fresh[where body = Greedy_admit and f = "\<lambda>n. with_costs (gCost n) (hcost (END s) (DIAGONAL s)) n"
      and W = W and H = H and s = s and ns = ns and e = "END s" and d = "DIAGONAL s"]
  by (simp add: Greedy_admit_ok)

lemma getPos_relaxed [simp]: "getPos (relaxed cur e d n) = getPos n"
  by (simp add: relaxed_def getPos_def)

lemma getPos_relax [simp]: "getPos (relax cur e d ks n) = getPos n"
  by (simp add: relax_def)

lemma hcost_pos: "getPos a = getPos b \<Longrightarrow> hcost e d a = hcost e d b"
  by (simp add: hcost_def getPos_def)

lemma relaxed_pos: "getPos a = getPos b \<Longrightarrow> relaxed cur e d a = relaxed cur e d b"
  using hcost_pos[of a b e d] by (simp add: relaxed_def getPos_def)

lemma with_costs_relaxed:
  "parent n = Some cur \<Longrightarrow> with_costs (gCost cur + 1) (hcost e d) n = relaxed cur e d n"
  by (simp add: with_costs_def relaxed_def)

lemma replace_in_open_relax:
  "replace_in_open (relaxed cur e d n) ns = map (relax cur e d [n]) ns"
proof -
  have "\<And>x. (if node_eq x (relaxed cur e d n) \<and> gCost (relaxed cur e d n) < gCost x then relaxed cur e d n else x)
       = relax cur e d [n] x"
  proof -
    fix x
    show "(if node_eq x (relaxed cur e d n) \<and> gCost (relaxed cur e d n) < gCost x then relaxed cur e d n else x)
       = relax cur e d [n] x"
    proof (cases "getPos x = getPos n")
      case True
      then have "relaxed cur e d x = relaxed cur e d n" by (rule relaxed_pos)
      then show ?thesis using True by (simp add: relax_def node_in_getPos node_eq_getPos) (simp add: relaxed_def)
    next
      case False
      then show ?thesis by (simp add: relax_def node_in_getPos node_eq_getPos)
    qed
  qed
  then show ?thesis by (simp add: replace_in_open_def)
qed

lemma relax_relax:
  "relax cur e d ks (relax cur e d [n] x) = relax cur e d (n # ks) x"
  by (auto simp: relax_def node_in_getPos) (simp_all add: relaxed_def)

lemma AStar_admit_ok:
  assumes "wf_dims W H (GRID s)" "node_in_range W H n" "parent n = Some cur"
  shows "AStar_admit cur s n =
     Inr (if fresh s n
          then s\<lparr>open_list := open_list s @ [relaxed cur (END s) (DIAGONAL s) n],
                 GRID := node_upd (GRID s) n Frontier\<rparr>
          else if known s n
          then s\<lparr>open_list := map (relax cur (END s) (DIAGONAL s) [n]) (open_list s)\<rparr>
          else s)"
proof -
  have 1: "Node (node_y n) (node_x n) (parent n) (gCost cur + 1) (HCost s n) = relaxed cur (END s) (DIAGONAL s) n"
    using assms(3) by (simp add: relaxed_def HCost_hcost)
  have 2: "node_in (relaxed cur (END s) (DIAGONAL s) n) (open_list s) = node_in n (open_list s)"
    by (simp add: node_in_getPos)
  show ?thesis
    unfolding AStar_admit_def Let_def 1 2 isPath_ok[OF assms(1,2)] node_set_ok[OF assms(1,2)]
    by (auto simp: fresh_def known_def replace_in_open_relax)
qed

lemma known_step1:
  assumes "wf_dims W H (GRID s)" "node_in_range W H n" "node_in_range W H m"
    and "getPos m \<noteq> getPos n" "getPos n' = getPos n"
  shows "known (s\<lparr>open_list := open_list s @ [n'], GRID := node_upd (GRID s) n Frontier\<rparr>) m = known s m"
  using assms by (auto simp: known_def node_tile_upd node_in_getPos)

lemma set_getPos_map: "(\<And>x. getPos (f x) = getPos x) \<Longrightarrow> getPos ` set (map f xs) = getPos ` set xs"
  by (auto simp: image_iff) 

lemma known_step2:
  "known (s\<lparr>open_list := map (relax cur e d ks) (open_list s)\<rparr>) m = known s m"
  by (simp add: known_def node_in_getPos set_getPos_map del: set_map)

lemma fresh_step2:
  "fresh (s\<lparr>open_list := map (relax cur e d ks) (open_list s)\<rparr>) m = fresh s m"
  by (simp add: fresh_def node_in_getPos set_getPos_map del: set_map)

lemma for_each_AStar_admit:
  "wf_dims W H (GRID s) \<Longrightarrow> \<forall>n \<in> set ns. node_in_range W H n \<and> parent n = Some cur \<Longrightarrow>
   distinct (map getPos ns) \<Longrightarrow>
   for_each (AStar_admit cur) ns s =
     Inr (s\<lparr>open_list := map (relax cur (END s) (DIAGONAL s) (filter (known s) ns)) (open_list s)
                          @ map (relaxed cur (END s) (DIAGONAL s)) (filter (fresh s) ns),
            GRID := mark (filter (fresh s) ns) (GRID s)\<rparr>)"
proof (induction ns arbitrary: s)
  case Nil
  have "map (relax cur (END s) (DIAGONAL s) []) (open_list s) = open_list s"
    by (simp add: relax_def node_in_def map_idI)
  then show ?case by simp
next
  case (Cons n ns)
  let ?e = "END s" and ?d = "DIAGONAL s"
  have nr: "node_in_range W H n" and pn: "parent n = Some cur" using Cons.prems by simp_all
  note b = AStar_admit_ok[OF Cons.prems(1) nr pn]
  have ne: "\<And>m. m \<in> set ns \<Longrightarrow> getPos m \<noteq> getPos n"
    using Cons.prems(3) by (metis distinct.simps(2) image_eqI list.simps(9) set_map)
  have mr: "\<And>m. m \<in> set ns \<Longrightarrow> node_in_range W H m" using Cons.prems by simp
  consider (f) "fresh s n" | (k) "\<not> fresh s n" "known s n" | (o) "\<not> fresh s n" "\<not> known s n" by blast
  then show ?case
  proof cases
    case f
    let ?s1 = "s\<lparr>open_list := open_list s @ [relaxed cur ?e ?d n], GRID := node_upd (GRID s) n Frontier\<rparr>"
    have nk: "\<not> known s n" using f by (simp add: fresh_def known_def)
    have wf1: "wf_dims W H (GRID ?s1)" using Cons.prems by (simp add: wf_dims_node_upd)
    have "\<And>m. m \<in> set ns \<Longrightarrow> fresh ?s1 m = fresh s m"
      using fresh_step[OF Cons.prems(1) nr mr ne] by simp
    then have fl: "filter (fresh ?s1) ns = filter (fresh s) ns" by (intro filter_cong) auto
    have "\<And>m. m \<in> set ns \<Longrightarrow> known ?s1 m = known s m"
      using known_step1[OF Cons.prems(1) nr mr ne] by simp
    then have kl: "filter (known ?s1) ns = filter (known s) ns" by (intro filter_cong) auto
    have "\<not> node_in (relaxed cur ?e ?d n) (filter (known s) ns)"
    proof
      assume "node_in (relaxed cur ?e ?d n) (filter (known s) ns)"
      then obtain m where "m \<in> set ns" "getPos m = getPos n"
        unfolding node_in_getPos getPos_relaxed by force
      with ne show False by blast
    qed
    then have keep: "relax cur ?e ?d (filter (known s) ns) (relaxed cur ?e ?d n) = relaxed cur ?e ?d n"
      by (simp add: relax_def)
    have "for_each (AStar_admit cur) ns ?s1 =
       Inr (?s1\<lparr>open_list := map (relax cur (END ?s1) (DIAGONAL ?s1) (filter (known ?s1) ns)) (open_list ?s1)
                          @ map (relaxed cur (END ?s1) (DIAGONAL ?s1)) (filter (fresh ?s1) ns),
            GRID := mark (filter (fresh ?s1) ns) (GRID ?s1)\<rparr>)"
      using Cons.prems wf1 by (intro Cons.IH) simp_all
    then show ?thesis using b f nk fl kl keep by (simp add: mark_Cons)
  next
    case k
    let ?s1 = "s\<lparr>open_list := map (relax cur ?e ?d [n]) (open_list s)\<rparr>"
    have fl: "filter (fresh ?s1) ns = filter (fresh s) ns"
      by (intro filter_cong) (simp_all add: fresh_step2)
    have kl: "filter (known ?s1) ns = filter (known s) ns"
      by (intro filter_cong) (simp_all add: known_step2)
    have "for_each (AStar_admit cur) ns ?s1 =
       Inr (?s1\<lparr>open_list := map (relax cur (END ?s1) (DIAGONAL ?s1) (filter (known ?s1) ns)) (open_list ?s1)
                          @ map (relaxed cur (END ?s1) (DIAGONAL ?s1)) (filter (fresh ?s1) ns),
            GRID := mark (filter (fresh ?s1) ns) (GRID ?s1)\<rparr>)"
      using Cons.prems by (intro Cons.IH) simp_all
    then show ?thesis using b k fl kl by (simp add: relax_relax comp_def)
  next
    case o
    have "for_each (AStar_admit cur) ns s =
     Inr (s\<lparr>open_list := map (relax cur (END s) (DIAGONAL s) (filter (known s) ns)) (open_list s)
                          @ map (relaxed cur (END s) (DIAGONAL s)) (filter (fresh s) ns),
            GRID := mark (filter (fresh s) ns) (GRID s)\<rparr>)"
      using Cons.prems by (intro Cons.IH) simp_all
    then show ?thesis using b o by simp
  qed
qed

lemma step_unfold:
  "step alg s = (if open_list s = [] then Inr (Failure, s)
     else expand (loop_body alg (removed alg (open_list s))) s (removed alg (open_list s)) (remaining alg (open_list s)))"
  by (cases alg) (simp_all add: DFS_def BFS_def Greedy_def AStar_def Let_def)

lemma removed_remaining:
  "ns \<noteq> [] \<Longrightarrow> mset ns = add_mset (removed alg ns) (mset (remaining alg ns))"
proof (cases alg)
  case AlgDFS
  assume "ns \<noteq> []"
  then have "ns = butlast ns @ [last ns]" by simp
  then have "mset ns = mset (butlast ns @ [last ns])" by simp
  then show ?thesis using AlgDFS by simp
next
  case AlgBFS
  assume "ns \<noteq> []" then show ?thesis using AlgBFS by (cases ns) simp_all
next
  case AlgGreedy
  assume "ns \<noteq> []"
  then have "sort_key hCost ns \<noteq> []" by (metis length_0_conv length_sort)
  then have "mset (sort_key hCost ns) = add_mset (hd (sort_key hCost ns)) (mset (tl (sort_key hCost ns)))"
    by (cases "sort_key hCost ns") simp_all
  then show ?thesis using AlgGreedy by simp
next
  case AlgAStar
  assume "ns \<noteq> []"
  then have "sort_key fCost ns \<noteq> []" by (metis length_0_conv length_sort)
  then have "mset (sort_key fCost ns) = add_mset (hd (sort_key fCost ns)) (mset (tl (sort_key fCost ns)))"
    by (cases "sort_key fCost ns") simp_all
  then show ?thesis using AlgAStar by simp
qed

lemma removed_remaining_set:
  assumes "ns \<noteq> []" shows "set ns = insert (removed alg ns) (set (remaining alg ns))"
proof -
  have "set_mset (mset ns) = set_mset (add_mset (removed alg ns) (mset (remaining alg ns)))"
    using removed_remaining[OF assms, of alg] by (rule arg_cong)
  then show ?thesis by simp
qed

lemma removed_in: "ns \<noteq> [] \<Longrightarrow> removed alg ns \<in> set ns"
  using removed_remaining_set[of ns alg] by blast

lemma remaining_subset: "ns \<noteq> [] \<Longrightarrow> set (remaining alg ns) \<subseteq> set ns"
  using removed_remaining_set[of ns alg] by blast

lemma mark_map_pos: "(\<And>n. n \<in> set ns \<Longrightarrow> getPos (f n) = getPos n) \<Longrightarrow> mark (map f ns) g = mark ns g"
proof (induction ns arbitrary: g)
  case Nil then show ?case by simp
next
  case (Cons n ns)
  have "node_upd g (f n) Frontier = node_upd g n Frontier"
    using Cons.prems[of n] by (simp add: node_upd_def getPos_def)
  then show ?case using Cons by (simp add: mark_Cons)
qed

lemma close_node_ok:
  "wf_dims W H (GRID s) \<Longrightarrow> node_in_range W H cur \<Longrightarrow> close_node s cur rest = Inr (closed_state s cur rest)"
  by (simp add: close_node_def closed_state_def node_set_ok)

lemma expandedI:
  assumes wf: "wf_dims W H (GRID s)" and cur: "inGrid W H (node_x cur) (node_y cur)"
    and F: "F = filter (fresh (closed_state s cur rest)) (getNeighbors (DIAGONAL s) cur)"
    and f: "\<And>n. n \<in> set F \<Longrightarrow> getPos (f n) = getPos n \<and> parent (f n) = Some cur"
    and olds: "list_all2 (\<lambda>a b. getPos a = getPos b \<and> (a = b \<or> parent a = Some cur)) olds rest"
  shows "expanded cur rest s
           ((closed_state s cur rest)\<lparr>open_list := olds @ map f F,
                                     GRID := mark F (GRID (closed_state s cur rest))\<rparr>)"
proof -
  have d: "distinct (map getPos (map f F))"
  proof -
    have "map getPos (map f F) = map getPos F" using f by simp
    moreover have "distinct (map getPos F)" unfolding F by (simp add: distinct_map_filter nbrs_distinct)
    ultimately show ?thesis by (simp only:)
  qed
  have m: "mark (map f F) (node_upd (GRID s) cur Visited) = mark F (node_upd (GRID s) cur Visited)"
    using f by (intro mark_map_pos) simp
  have p: "\<forall>n \<in> set (map f F). parent n = Some cur \<and>
         getPos n \<in> getPos ` set (getNeighbors (DIAGONAL s) cur) \<and>
         node_tile (GRID s) n \<noteq> Wall \<and>
         getPos n \<notin> getPos ` set (closed_list s @ cur # rest)"
  proof
    fix n assume "n \<in> set (map f F)"
    then obtain m where m: "m \<in> set F" "n = f m" by auto
    then have mn: "m \<in> set (getNeighbors (DIAGONAL s) cur)" and fr: "fresh (closed_state s cur rest) m"
      unfolding F by simp_all
    have pos: "getPos n = getPos m" and par: "parent n = Some cur" using f m by simp_all
    have mr: "node_in_range W H m" using nbrs_in_range[OF cur mn] .
    have cr: "node_in_range W H cur" using inGrid_in_range[OF cur] .
    have "node_tile (node_upd (GRID s) cur Visited) m \<noteq> Wall" using fr by (simp add: fresh_def closed_state_def)
    then have "node_tile (GRID s) m \<noteq> Wall"
      using nbrs_not_self[OF mn] by (simp add: node_tile_upd[OF wf cr mr])
    then have t: "node_tile (GRID s) n \<noteq> Wall" using pos by (simp add: node_tile_def getPos_def)
    have "getPos m \<notin> getPos ` set (closed_list s @ cur # rest)"
      using fr by (auto simp: fresh_def closed_state_def node_in_getPos)
    then have c: "getPos n \<notin> getPos ` set (closed_list s @ cur # rest)" unfolding pos .
    have i: "getPos n \<in> getPos ` set (getNeighbors (DIAGONAL s) cur)" unfolding pos using mn by (rule imageI)
    show "parent n = Some cur \<and>
         getPos n \<in> getPos ` set (getNeighbors (DIAGONAL s) cur) \<and>
         node_tile (GRID s) n \<noteq> Wall \<and>
         getPos n \<notin> getPos ` set (closed_list s @ cur # rest)"
      using par i t c by (intro conjI)
  qed
  have e: "(closed_state s cur rest)\<lparr>open_list := olds @ map f F,
                                     GRID := mark F (GRID (closed_state s cur rest))\<rparr>
      = s\<lparr>open_list := olds @ map f F, closed_list := closed_list s @ [cur],
            GRID := mark (map f F) (node_upd (GRID s) cur Visited)\<rparr>"
    unfolding m by (simp add: closed_state_def)
  show ?thesis unfolding expanded_def e
    apply (rule exI[of _ olds], rule exI[of _ "map f F"])
    using d p olds by (intro conjI refl)
qed

lemma expanded_closed_state: "expanded cur rest s (closed_state s cur rest)"
  unfolding expanded_def
  apply (rule exI[of _ rest], rule exI[of _ "[]"])
  by (simp add: closed_state_def list_all2_same)

lemma relax_olds:
  "list_all2 (\<lambda>a b. getPos a = getPos b \<and> (a = b \<or> parent a = Some cur)) (map (relax cur e d ks) rest) rest"
  by (simp add: list_all2_map1 list_all2_same) (simp add: relax_def relaxed_def)

lemma same_olds:
  "list_all2 (\<lambda>a b. getPos a = getPos b \<and> (a = b \<or> parent a = Some cur)) rest rest"
  by (simp add: list_all2_same)

lemma closed_state_simps [simp]:
  "open_list (closed_state s cur rest) = rest"
  "closed_list (closed_state s cur rest) = closed_list s @ [cur]"
  "GRID (closed_state s cur rest) = node_upd (GRID s) cur Visited"
  "END (closed_state s cur rest) = END s"
  "START (closed_state s cur rest) = START s"
  "DIAGONAL (closed_state s cur rest) = DIAGONAL s"
  "searching (closed_state s cur rest) = searching s"
  by (simp_all add: closed_state_def)

lemma for_each_body:
  assumes wf: "wf_dims W H (GRID s)" and cur: "inGrid W H (node_x cur) (node_y cur)"
  shows "\<exists>olds f. for_each (loop_body alg cur) (getNeighbors (DIAGONAL s) cur) (closed_state s cur rest) =
           Inr ((closed_state s cur rest)\<lparr>open_list := olds @ map f (filter (fresh (closed_state s cur rest)) (getNeighbors (DIAGONAL s) cur)),
                    GRID := mark (filter (fresh (closed_state s cur rest)) (getNeighbors (DIAGONAL s) cur)) (GRID (closed_state s cur rest))\<rparr>) \<and>
           list_all2 (\<lambda>a b. getPos a = getPos b \<and> (a = b \<or> parent a = Some cur)) olds rest \<and>
           (\<forall>n \<in> set (getNeighbors (DIAGONAL s) cur). getPos (f n) = getPos n \<and> parent (f n) = Some cur)"
proof -
  let ?s1 = "closed_state s cur rest" and ?ns = "getNeighbors (DIAGONAL s) cur"
  have wf1: "wf_dims W H (GRID ?s1)" using wf by (simp add: wf_dims_node_upd)
  have nr: "\<forall>n \<in> set ?ns. node_in_range W H n" using nbrs_in_range[OF cur] by blast
  have np: "\<forall>n \<in> set ?ns. node_in_range W H n \<and> parent n = Some cur"
    using nbrs_in_range[OF cur] nbrs_fields by blast
  note d = nbrs_distinct[of "DIAGONAL s" cur]
  show ?thesis
  proof (cases alg)
    case AlgDFS
    show ?thesis
      apply (rule exI[of _ rest], rule exI[of _ "\<lambda>n. n"])
      using for_each_admit[OF wf1 nr d] AlgDFS nbrs_fields by (simp add: same_olds)
  next
    case AlgBFS
    show ?thesis
      apply (rule exI[of _ rest], rule exI[of _ "\<lambda>n. n"])
      using for_each_admit[OF wf1 nr d] AlgBFS nbrs_fields by (simp add: same_olds)
  next
    case AlgGreedy
    show ?thesis
      apply (rule exI[of _ rest], rule exI[of _ "\<lambda>n. with_costs (gCost n) (hcost (END s) (DIAGONAL s)) n"])
      using for_each_Greedy_admit[OF wf1 nr d] AlgGreedy nbrs_fields by (simp add: same_olds) (simp add: with_costs_def)
  next
    case AlgAStar
    show ?thesis
      apply (rule exI[of _ "map (relax cur (END s) (DIAGONAL s) (filter (known ?s1) ?ns)) rest"],
             rule exI[of _ "relaxed cur (END s) (DIAGONAL s)"])
      using for_each_AStar_admit[OF wf1 np d] AlgAStar by (simp add: relax_olds) (simp add: relaxed_def)
  qed
qed

lemma expand_ok:
  assumes wf: "wf_dims W H (GRID s)" and cur: "inGrid W H (node_x cur) (node_y cur)"
  shows "\<exists>r s'. expand (loop_body alg cur) s cur rest = Inr (r, s') \<and> expanded cur rest s s' \<and>
           (r = Success \<longleftrightarrow> node_eq cur (END s)) \<and> r \<noteq> Failure"
proof (cases "node_eq cur (END s)")
  case True
  then show ?thesis
    using close_node_ok[OF wf inGrid_in_range[OF cur]] expanded_closed_state
    by (simp add: expand_def)
next
  case False
  let ?s1 = "closed_state s cur rest" and ?ns = "getNeighbors (DIAGONAL s) cur"
  obtain olds f where
    fe: "for_each (loop_body alg cur) ?ns ?s1 =
           Inr (?s1\<lparr>open_list := olds @ map f (filter (fresh ?s1) ?ns),
                    GRID := mark (filter (fresh ?s1) ?ns) (GRID ?s1)\<rparr>)"
    and olds: "list_all2 (\<lambda>a b. getPos a = getPos b \<and> (a = b \<or> parent a = Some cur)) olds rest"
    and f: "\<forall>n \<in> set ?ns. getPos (f n) = getPos n \<and> parent (f n) = Some cur"
    using for_each_body[OF wf cur, of alg rest] by blast
  have "expanded cur rest s (?s1\<lparr>open_list := olds @ map f (filter (fresh ?s1) ?ns),
                    GRID := mark (filter (fresh ?s1) ?ns) (GRID ?s1)\<rparr>)"
    using f by (intro expandedI[OF wf cur refl _ olds]) simp
  then show ?thesis
    using False close_node_ok[OF wf inGrid_in_range[OF cur]] fe
    by (simp add: expand_def)
qed

lemma step_ok:
  assumes "wf_dims W H (GRID s)" "\<forall>n \<in> set (open_list s). interior W H n" "open_list s \<noteq> []"
  shows "\<exists>r s'. step alg s = Inr (r, s') \<and>
           expanded (removed alg (open_list s)) (remaining alg (open_list s)) s s' \<and>
           (r = Success \<longleftrightarrow> node_eq (removed alg (open_list s)) (END s)) \<and> r \<noteq> Failure"
proof -
  have "interior W H (removed alg (open_list s))" using assms removed_in by blast
  then show ?thesis
    using expand_ok[OF assms(1), of "removed alg (open_list s)" alg "remaining alg (open_list s)"] assms(3)
    by (simp add: step_unfold interior_def)
qed

lemma step_empty: "open_list s = [] \<Longrightarrow> step alg s = Inr (Failure, s)"
  by (simp add: step_unfold)

lemma interior_pos: "getPos a = getPos b \<Longrightarrow> interior W H a = interior W H b"
  by (simp add: interior_def getPos_def)

lemma node_in_range_pos: "getPos a = getPos b \<Longrightarrow> node_in_range W H a = node_in_range W H b"
  by (simp add: node_in_range_def getPos_def)

lemma node_tile_pos: "getPos a = getPos b \<Longrightarrow> node_tile g a = node_tile g b"
  by (simp add: node_tile_def getPos_def)

lemma interior_in_range: "interior W H n \<Longrightarrow> node_in_range W H n"
  by (simp add: interior_def inGrid_in_range)

lemma not_wall_interior:
  "wf_grid W H g \<Longrightarrow> node_in_range W H n \<Longrightarrow> node_tile g n \<noteq> Wall \<Longrightarrow> interior W H n"
  unfolding wf_grid_def node_in_range_def node_tile_def interior_def by blast

lemma list_all2_pos:
  "list_all2 (\<lambda>a b. getPos a = getPos b \<and> Q a b) xs ys \<Longrightarrow> map getPos xs = map getPos ys"
  by (induction xs ys rule: list_all2_induct) simp_all

lemma expandedE:
  assumes "expanded cur rest s s'"
  obtains olds news where
    "open_list s' = olds @ news" "closed_list s' = closed_list s @ [cur]"
    "GRID s' = mark news (node_upd (GRID s) cur Visited)"
    "START s' = START s" "END s' = END s" "DIAGONAL s' = DIAGONAL s" "searching s' = searching s"
    "list_all2 (\<lambda>a b. getPos a = getPos b \<and> (a = b \<or> parent a = Some cur)) olds rest"
    "map getPos olds = map getPos rest" "length olds = length rest"
    "distinct (map getPos news)"
    "\<forall>n \<in> set news. parent n = Some cur \<and>
         getPos n \<in> getPos ` set (getNeighbors (DIAGONAL s) cur) \<and>
         node_tile (GRID s) n \<noteq> Wall \<and>
         getPos n \<notin> getPos ` set (closed_list s @ cur # rest)"
proof -
  from assms obtain olds news where
    s': "s' = s\<lparr>open_list := olds @ news, closed_list := closed_list s @ [cur],
            GRID := mark news (node_upd (GRID s) cur Visited)\<rparr>"
    and o: "list_all2 (\<lambda>a b. getPos a = getPos b \<and> (a = b \<or> parent a = Some cur)) olds rest"
    and d: "distinct (map getPos news)"
    and n: "\<forall>n \<in> set news. parent n = Some cur \<and>
         getPos n \<in> getPos ` set (getNeighbors (DIAGONAL s) cur) \<and>
         node_tile (GRID s) n \<noteq> Wall \<and>
         getPos n \<notin> getPos ` set (closed_list s @ cur # rest)"
    unfolding expanded_def by blast
  show thesis
    by (rule that[of olds news]) (use s' o d n list_all2_pos[OF o] list_all2_lengthD[OF o] in simp_all)
qed

lemma news_in_range:
  assumes "interior W H cur" "getPos n \<in> getPos ` set (getNeighbors d cur)"
  shows "node_in_range W H n"
proof -
  from assms(2) obtain m where m: "m \<in> set (getNeighbors d cur)" "getPos n = getPos m" by auto
  from nbrs_in_range[OF assms(1)[unfolded interior_def] m(1)] node_in_range_pos[OF m(2)]
  show ?thesis by simp
qed

lemma pos_mem_interior:
  assumes "getPos n \<in> getPos ` set ns" "\<forall>m \<in> set ns. interior W H m"
  shows "interior W H n"
proof -
  from assms(1) obtain m where "m \<in> set ns" "getPos n = getPos m" by auto
  then show ?thesis using assms(2) interior_pos[of n m W H] by simp
qed

lemma mset_add_set:
  assumes "mset xs = add_mset c (mset ys)" shows "set xs = insert c (set ys)"
proof -
  have "set_mset (mset xs) = set_mset (add_mset c (mset ys))" using assms by (rule arg_cong)
  then show ?thesis by simp
qed

lemma map_pos_set: "map getPos xs = map getPos ys \<Longrightarrow> getPos ` set xs = getPos ` set ys"
proof -
  assume "map getPos xs = map getPos ys"
  then have "set (map getPos xs) = set (map getPos ys)" by (rule arg_cong)
  then show ?thesis by simp
qed

lemma expanded_tile:
  assumes wf: "wf_dims W H (GRID s)" and cur: "interior W H cur" and ex: "expanded cur rest s s'"
    and rc: "in_range W H r c"
  shows "tile (GRID s') r c =
     (if (r, c) \<in> getPos ` set (drop (length rest) (open_list s')) then Frontier
      else if (r, c) = getPos cur then Visited else tile (GRID s) r c)"
proof -
  from ex obtain olds news where e:
    "open_list s' = olds @ news" "GRID s' = mark news (node_upd (GRID s) cur Visited)"
    "length olds = length rest"
    "\<forall>n \<in> set news. parent n = Some cur \<and>
         getPos n \<in> getPos ` set (getNeighbors (DIAGONAL s) cur) \<and>
         node_tile (GRID s) n \<noteq> Wall \<and>
         getPos n \<notin> getPos ` set (closed_list s @ cur # rest)"
    by (rule expandedE)
  have nr: "\<forall>n \<in> set news. node_in_range W H n" using e(4) news_in_range[OF cur] by blast
  have d: "drop (length rest) (open_list s') = news" using e(1,3) by simp
  show ?thesis unfolding d e(2)
    using tile_mark[OF wf_dims_node_upd[OF wf] nr rc, of cur Visited]
      tile_node_upd[OF wf interior_in_range[OF cur] rc, of Visited] by simp
qed

lemma geo_inv_expanded:
  assumes g: "geo_inv W H s" and cur: "cur \<in> set (open_list s)" and rest: "set rest \<subseteq> set (open_list s)"
    and ex: "expanded cur rest s s'"
  shows "geo_inv W H s'"
proof -
  from ex obtain olds news where e:
    "open_list s' = olds @ news" "closed_list s' = closed_list s @ [cur]"
    "GRID s' = mark news (node_upd (GRID s) cur Visited)"
    "START s' = START s" "END s' = END s"
    "map getPos olds = map getPos rest"
    "\<forall>n \<in> set news. parent n = Some cur \<and>
         getPos n \<in> getPos ` set (getNeighbors (DIAGONAL s) cur) \<and>
         node_tile (GRID s) n \<noteq> Wall \<and>
         getPos n \<notin> getPos ` set (closed_list s @ cur # rest)"
    by (rule expandedE)
  have wfg: "wf_grid W H (GRID s)" and wf: "wf_dims W H (GRID s)"
    and ci: "interior W H cur" and oi: "\<forall>n \<in> set (open_list s). interior W H n"
    and cl: "\<forall>n \<in> set (closed_list s). interior W H n"
    using g cur by (auto simp: geo_inv_def wf_grid_def)
  have ni: "\<forall>n \<in> set news. interior W H n"
    using e(7) news_in_range[OF ci] not_wall_interior[OF wfg] by blast
  have "getPos ` set olds = getPos ` set rest" using e(6) by (rule map_pos_set)
  then have oli: "\<forall>n \<in> set olds. interior W H n"
    using pos_mem_interior[of _ rest W H] oi rest by blast
  have wd: "wf_dims W H (GRID s')" unfolding e(3) by (intro wf_dims_mark wf_dims_node_upd wf)
  have border: "\<forall>r c. in_range W H r c \<and> \<not> inGrid W H c r \<longrightarrow> tile (GRID s') r c = Wall"
  proof (intro allI impI)
    fix r c assume a: "in_range W H r c \<and> \<not> inGrid W H c r"
    have 1: "(r, c) \<noteq> getPos cur" using a ci by (auto simp: interior_def getPos_def)
    have 2: "(r, c) \<notin> getPos ` set (drop (length rest) (open_list s'))"
    proof
      assume "(r, c) \<in> getPos ` set (drop (length rest) (open_list s'))"
      then obtain n where "n \<in> set (drop (length rest) (open_list s'))" "getPos n = (r, c)"
        by auto
      then have "n \<in> set (open_list s')" "getPos n = (r, c)"
        using in_set_dropD by fast+
      moreover have "\<forall>n \<in> set (open_list s'). interior W H n" using e(1) oli ni by auto
      ultimately show False using a by (auto simp: interior_def getPos_def)
    qed
    have "tile (GRID s) r c = Wall" using wfg a unfolding wf_grid_def by blast
    then show "tile (GRID s') r c = Wall"
      using expanded_tile[OF wf ci ex, of r c] a 1 2 by simp
  qed
  show ?thesis
    unfolding geo_inv_def wf_grid_def
    using wd border g e(1,2,4,5) oli ni cl ci by (auto simp: geo_inv_def)
qed

lemma distinct_expanded:
  assumes d: "distinct (map getPos (open_list s @ closed_list s))"
    and m: "mset (open_list s) = add_mset cur (mset rest)"
    and ex: "expanded cur rest s s'"
  shows "distinct (map getPos (open_list s' @ closed_list s'))"
proof -
  from ex obtain olds news where e:
    "open_list s' = olds @ news" "closed_list s' = closed_list s @ [cur]"
    "map getPos olds = map getPos rest" "distinct (map getPos news)"
    "\<forall>n \<in> set news. parent n = Some cur \<and>
         getPos n \<in> getPos ` set (getNeighbors (DIAGONAL s) cur) \<and>
         node_tile (GRID s) n \<noteq> Wall \<and>
         getPos n \<notin> getPos ` set (closed_list s @ cur # rest)"
    by (rule expandedE)
  have "mset (map getPos (closed_list s @ cur # rest)) = mset (map getPos (open_list s @ closed_list s))"
    using m by simp
  then have d1: "distinct (map getPos (closed_list s @ cur # rest))"
    using d mset_eq_imp_distinct_iff by blast
  have disj: "set (map getPos news) \<inter> set (map getPos (closed_list s @ cur # rest)) = {}"
  proof -
    have "\<And>p. p \<in> set (map getPos news) \<Longrightarrow> p \<notin> set (map getPos (closed_list s @ cur # rest))"
    proof -
      fix p assume "p \<in> set (map getPos news)"
      then obtain n where "n \<in> set news" "p = getPos n" by auto
      then show "p \<notin> set (map getPos (closed_list s @ cur # rest))"
        using e(5) by (simp only: set_map) blast
    qed
    then show ?thesis by blast
  qed
  have "distinct (map getPos news @ map getPos (closed_list s @ cur # rest))"
    using d1 e(4) disj by (simp only: distinct_append)
  moreover have "mset (map getPos (open_list s' @ closed_list s'))
      = mset (map getPos news @ map getPos (closed_list s @ cur # rest))"
    unfolding e(1,2) map_append e(3) by simp
  ultimately show ?thesis using mset_eq_imp_distinct_iff by blast
qed

lemma walls_expanded:
  assumes wf: "wf_dims W H (GRID s)" and cur: "interior W H cur" and ct: "node_tile (GRID s) cur \<noteq> Wall"
    and ex: "expanded cur rest s s'" and rc: "in_range W H r c"
  shows "tile (GRID s') r c = Wall \<longleftrightarrow> tile (GRID s) r c = Wall"
proof -
  from ex obtain olds news where e:
    "open_list s' = olds @ news" "length olds = length rest"
    "\<forall>n \<in> set news. parent n = Some cur \<and>
         getPos n \<in> getPos ` set (getNeighbors (DIAGONAL s) cur) \<and>
         node_tile (GRID s) n \<noteq> Wall \<and>
         getPos n \<notin> getPos ` set (closed_list s @ cur # rest)"
    by (rule expandedE)
  have d: "drop (length rest) (open_list s') = news" using e(1,2) by simp
  have 1: "(r, c) \<in> getPos ` set news \<Longrightarrow> tile (GRID s) r c \<noteq> Wall"
    using e(3) by (auto simp: node_tile_def getPos_def)
  have 2: "(r, c) = getPos cur \<Longrightarrow> tile (GRID s) r c \<noteq> Wall"
    using ct by (auto simp: node_tile_def getPos_def)
  show ?thesis using expanded_tile[OF wf cur ex rc] 1 2 unfolding d by auto
qed

lemma search_inv_expanded:
  assumes g: "search_inv W H s" and m: "mset (open_list s) = add_mset cur (mset rest)"
    and ex: "expanded cur rest s s'"
  shows "search_inv W H s'"
proof -
  have cur: "cur \<in> set (open_list s)" and rest: "set rest \<subseteq> set (open_list s)"
    using mset_add_set[OF m] by blast+
  have gi: "geo_inv W H s" using g by (simp add: search_inv_def)
  have g': "geo_inv W H s'" using geo_inv_expanded[OF gi cur rest ex] .
  have d': "distinct (map getPos (open_list s' @ closed_list s'))"
    using distinct_expanded[OF _ m ex] g by (simp add: search_inv_def)
  have wf: "wf_dims W H (GRID s)" and ci: "interior W H cur" and ct: "node_tile (GRID s) cur \<noteq> Wall"
    using g cur by (auto simp: search_inv_def geo_inv_def wf_grid_def)
  have "\<forall>n \<in> set (open_list s' @ closed_list s'). node_tile (GRID s') n \<noteq> Wall"
  proof
    fix n assume n: "n \<in> set (open_list s' @ closed_list s')"
    then have nr: "in_range W H (node_y n) (node_x n)"
      using g' interior_in_range by (auto simp: geo_inv_def node_in_range_def)
    from ex obtain olds news where e:
      "open_list s' = olds @ news" "closed_list s' = closed_list s @ [cur]"
      "map getPos olds = map getPos rest"
      "\<forall>n \<in> set news. parent n = Some cur \<and>
         getPos n \<in> getPos ` set (getNeighbors (DIAGONAL s) cur) \<and>
         node_tile (GRID s) n \<noteq> Wall \<and>
         getPos n \<notin> getPos ` set (closed_list s @ cur # rest)"
      by (rule expandedE)
    have "node_tile (GRID s) n \<noteq> Wall"
    proof -
      consider "n \<in> set olds" | "n \<in> set news" | "n \<in> set (closed_list s)" | "n = cur"
        using n e(1,2) by auto
      then show ?thesis
      proof cases
        case 1
        then have "getPos n \<in> getPos ` set rest" using map_pos_set[OF e(3)] by blast
        then obtain k where "k \<in> set rest" "getPos n = getPos k" by auto
        then show ?thesis using rest g node_tile_pos[of n k] by (auto simp: search_inv_def)
      next
        case 2 then show ?thesis using e(4) by blast
      next
        case 3 then show ?thesis using g by (simp add: search_inv_def)
      next
        case 4 then show ?thesis using ct by simp
      qed
    qed
    then show "node_tile (GRID s') n \<noteq> Wall"
      using walls_expanded[OF wf ci ct ex nr] by (simp add: node_tile_def)
  qed
  then show ?thesis using g' d' by (simp add: search_inv_def)
qed

lemma search_inv_step:
  assumes "search_inv W H s"
  shows "\<exists>r s'. step alg s = Inr (r, s') \<and> search_inv W H s'"
proof (cases "open_list s = []")
  case True
  then show ?thesis using assms by (simp add: step_empty)
next
  case False
  have wf: "wf_dims W H (GRID s)" and oi: "\<forall>n \<in> set (open_list s). interior W H n"
    using assms by (auto simp: search_inv_def geo_inv_def wf_grid_def)
  from step_ok[OF wf oi False, of alg] obtain r s' where
    "step alg s = Inr (r, s')" "expanded (removed alg (open_list s)) (remaining alg (open_list s)) s s'"
    by blast
  then show ?thesis
    using search_inv_expanded[OF assms removed_remaining[OF False, of alg]] by blast
qed

lemma seeded_search_inv: "seeded W H s \<Longrightarrow> search_inv W H s"
  by (simp add: seeded_def app_inv_def search_inv_def geo_inv_def)

lemma step_closed_grows:
  assumes "search_inv W H s" "step alg s = Inr (r, s')" "r \<noteq> Failure"
  shows "closed_list s' = closed_list s @ [removed alg (open_list s)] \<and> open_list s \<noteq> []"
proof (cases "open_list s = []")
  case True
  then show ?thesis using assms by (simp add: step_empty)
next
  case False
  have wf: "wf_dims W H (GRID s)" and oi: "\<forall>n \<in> set (open_list s). interior W H n"
    using assms(1) by (auto simp: search_inv_def geo_inv_def wf_grid_def)
  from step_ok[OF wf oi False, of alg] assms(2)
  have "expanded (removed alg (open_list s)) (remaining alg (open_list s)) s s'" by auto
  then show ?thesis using False by (auto elim: expandedE)
qed

lemma search_inv_step_result:
  assumes "search_inv W H s" "step alg s = Inr (r, s')"
  shows "search_inv W H s'"
  using search_inv_step[OF assms(1), of alg] assms(2) by auto

lemma search_inv_steps:
  "search_inv W H s \<Longrightarrow> \<exists>s'. steps alg n s = Inr s' \<and> search_inv W H s'"
proof (induction n arbitrary: s)
  case 0 then show ?case by simp
next
  case (Suc n)
  from search_inv_step[OF Suc.prems, of alg] obtain r s1 where
    1: "step alg s = Inr (r, s1)" "search_inv W H s1" by blast
  from Suc.IH[OF 1(2)] show ?case using 1(1) by simp
qed

lemma search_inv_run:
  "search_inv W H s \<Longrightarrow> \<exists>r s'. run alg n s = Inr (r, s') \<and> search_inv W H s' \<and>
      (r = Continuing \<longrightarrow> length (closed_list s') = length (closed_list s) + n)"
proof (induction n arbitrary: s)
  case 0 then show ?case by simp
next
  case (Suc n)
  from search_inv_step[OF Suc.prems, of alg] obtain r s1 where
    1: "step alg s = Inr (r, s1)" "search_inv W H s1" by blast
  show ?case
  proof (cases "r = Continuing")
    case False
    then show ?thesis using 1 by simp
  next
    case True
    then have "length (closed_list s1) = length (closed_list s) + 1"
      using step_closed_grows[OF Suc.prems 1(1)] by simp
    moreover from Suc.IH[OF 1(2)] obtain r' s' where
      "run alg n s1 = Inr (r', s')" "search_inv W H s'"
      "r' = Continuing \<longrightarrow> length (closed_list s') = length (closed_list s1) + n" by blast
    ultimately show ?thesis using 1(1) True by simp
  qed
qed

lemma closed_bound:
  assumes "search_inv W H s"
  shows "int (length (closed_list s)) \<le> (W - 2) * (H - 2)"
proof -
  have d: "distinct (map getPos (closed_list s))" using assms by (simp add: search_inv_def)
  have "\<And>n. n \<in> set (closed_list s) \<Longrightarrow> interior W H n"
    using assms by (simp add: search_inv_def geo_inv_def)
  then have "\<And>n. n \<in> set (closed_list s) \<Longrightarrow> getPos n \<in> {1..H - 2} \<times> {1..W - 2}"
    by (fastforce simp: interior_def inGrid_def getPos_def)
  then have "getPos ` set (closed_list s) \<subseteq> {1..H - 2} \<times> {1..W - 2}"
    by (rule image_subsetI)
  then have sub: "set (map getPos (closed_list s)) \<subseteq> {1..H - 2} \<times> {1..W - 2}"
    by (simp only: set_map)
  have "length (closed_list s) = card (set (map getPos (closed_list s)))"
    using distinct_card[OF d] by simp
  also have "\<dots> \<le> card ({1..H - 2} \<times> {1..W - 2})"
    using sub by (intro card_mono) simp_all
  also have "\<dots> = nat (H - 2) * nat (W - 2)" by (simp add: card_cartesian_product)
  finally have le: "length (closed_list s) \<le> nat (H - 2) * nat (W - 2)" .
  have "interior W H (START s)" using assms by (simp add: search_inv_def geo_inv_def)
  then have "2 \<le> W" "2 \<le> H" by (auto simp: interior_def inGrid_def)
  then have "int (nat (H - 2) * nat (W - 2)) = (W - 2) * (H - 2)" by simp
  then show ?thesis using le by linarith
qed

lemma run_terminates:
  assumes "search_inv W H s"
  shows "\<exists>r s'. run alg (nat (W * H)) s = Inr (r, s') \<and> r \<noteq> Continuing \<and> search_inv W H s'"
proof -
  from search_inv_run[OF assms, of alg "nat (W * H)"] obtain r s' where
    1: "run alg (nat (W * H)) s = Inr (r, s')" "search_inv W H s'"
    "r = Continuing \<longrightarrow> length (closed_list s') = length (closed_list s) + nat (W * H)" by blast
  have "interior W H (START s)" using assms by (simp add: search_inv_def geo_inv_def)
  then have wh: "3 \<le> W" "3 \<le> H" by (auto simp: interior_def inGrid_def)
  have "r \<noteq> Continuing"
  proof
    assume "r = Continuing"
    then have "int (length (closed_list s')) \<ge> int (nat (W * H))" using 1(3) by simp
    moreover have "0 \<le> W * H" using wh by simp
    ultimately have "W * H \<le> (W - 2) * (H - 2)" using closed_bound[OF 1(2)] by simp
    then have "W * H \<le> W * H - 2 * W - 2 * H + 4" by (simp add: algebra_simps)
    then show False using wh by simp
  qed
  then show ?thesis using 1 by blast
qed

lemma in_range_5:
  "in_range 5 5 r c \<Longrightarrow> (r = 0 \<or> r = 1 \<or> r = 2 \<or> r = 3 \<or> r = 4) \<and> (c = 0 \<or> c = 1 \<or> c = 2 \<or> c = 3 \<or> c = 4)"
  unfolding in_range_def by arith

lemma wf_dims_5:
  "length g = 5 \<Longrightarrow> \<forall>row \<in> set g. length row = 5 \<Longrightarrow> wf_dims 5 5 g"
  by (simp add: wf_dims_def)

lemma seeded_open_run: "seeded 5 5 open_run"
proof -
  have 1: "wf_dims 5 5 (GRID open_run)" by (simp add: wf_dims_def open_run_def)
  have 2: "\<forall>r c. in_range 5 5 r c \<and> \<not> inGrid 5 5 c r \<longrightarrow> tile (GRID open_run) r c = Wall"
  proof (intro allI impI)
    fix r c assume a: "in_range 5 5 r c \<and> \<not> inGrid 5 5 c r"
    then show "tile (GRID open_run) r c = Wall"
      using in_range_5[of r c] by (auto simp: inGrid_def tile_def open_run_def)
  qed
  have 3: "\<forall>r c. in_range 5 5 r c \<longrightarrow> tile (GRID open_run) r c \<notin> {Frontier, Visited, FinalPath}"
  proof (intro allI impI)
    fix r c assume a: "in_range 5 5 r c"
    then show "tile (GRID open_run) r c \<notin> {Frontier, Visited, FinalPath}"
      using in_range_5[of r c] by (auto simp: tile_def open_run_def)
  qed
  show ?thesis
    unfolding seeded_def app_inv_def wf_grid_def using 1 2 3
    by (simp add: open_run_def interior_def inGrid_def getPos_def node_tile_def tile_def)
qed

lemma seeded_blocked_run: "seeded 5 5 blocked_run"
proof -
  have 1: "wf_dims 5 5 (GRID blocked_run)" by (simp add: wf_dims_def blocked_run_def)
  have 2: "\<forall>r c. in_range 5 5 r c \<and> \<not> inGrid 5 5 c r \<longrightarrow> tile (GRID blocked_run) r c = Wall"
  proof (intro allI impI)
    fix r c assume a: "in_range 5 5 r c \<and> \<not> inGrid 5 5 c r"
    then show "tile (GRID blocked_run) r c = Wall"
      using in_range_5[of r c] by (auto simp: inGrid_def tile_def blocked_run_def)
  qed
  have 3: "\<forall>r c. in_range 5 5 r c \<longrightarrow> tile (GRID blocked_run) r c \<notin> {Frontier, Visited, FinalPath}"
  proof (intro allI impI)
    fix r c assume a: "in_range 5 5 r c"
    then show "tile (GRID blocked_run) r c \<notin> {Frontier, Visited, FinalPath}"
      using in_range_5[of r c] by (auto simp: tile_def blocked_run_def)
  qed
  show ?thesis
    unfolding seeded_def app_inv_def wf_grid_def using 1 2 3
    by (simp add: blocked_run_def interior_def inGrid_def getPos_def node_tile_def tile_def)
qed

lemma seeded_adjacent_run: "seeded 5 5 adjacent_run"
proof -
  have 1: "wf_dims 5 5 (GRID adjacent_run)" by (simp add: wf_dims_def adjacent_run_def)
  have 2: "\<forall>r c. in_range 5 5 r c \<and> \<not> inGrid 5 5 c r \<longrightarrow> tile (GRID adjacent_run) r c = Wall"
  proof (intro allI impI)
    fix r c assume a: "in_range 5 5 r c \<and> \<not> inGrid 5 5 c r"
    then show "tile (GRID adjacent_run) r c = Wall"
      using in_range_5[of r c] by (auto simp: inGrid_def tile_def adjacent_run_def)
  qed
  have 3: "\<forall>r c. in_range 5 5 r c \<longrightarrow> tile (GRID adjacent_run) r c \<notin> {Frontier, Visited, FinalPath}"
  proof (intro allI impI)
    fix r c assume a: "in_range 5 5 r c"
    then show "tile (GRID adjacent_run) r c \<notin> {Frontier, Visited, FinalPath}"
      using in_range_5[of r c] by (auto simp: tile_def adjacent_run_def)
  qed
  show ?thesis
    unfolding seeded_def app_inv_def wf_grid_def using 1 2 3
    by (simp add: adjacent_run_def interior_def inGrid_def getPos_def node_tile_def tile_def)
qed

lemma in_range_6:
  "in_range 6 6 r c \<Longrightarrow> (r = 0 \<or> r = 1 \<or> r = 2 \<or> r = 3 \<or> r = 4 \<or> r = 5) \<and>
      (c = 0 \<or> c = 1 \<or> c = 2 \<or> c = 3 \<or> c = 4 \<or> c = 5)"
  unfolding in_range_def by arith

lemma seeded_relax_start: "seeded 6 6 relax_start"
proof -
  have 1: "wf_dims 6 6 (GRID relax_start)" by (simp add: wf_dims_def relax_start_def)
  have 2: "\<forall>r c. in_range 6 6 r c \<and> \<not> inGrid 6 6 c r \<longrightarrow> tile (GRID relax_start) r c = Wall"
  proof (intro allI impI)
    fix r c assume a: "in_range 6 6 r c \<and> \<not> inGrid 6 6 c r"
    then show "tile (GRID relax_start) r c = Wall"
      using in_range_6[of r c] by (auto simp: inGrid_def tile_def relax_start_def)
  qed
  have 3: "\<forall>r c. in_range 6 6 r c \<longrightarrow> tile (GRID relax_start) r c \<notin> {Frontier, Visited, FinalPath}"
  proof (intro allI impI)
    fix r c assume a: "in_range 6 6 r c"
    then show "tile (GRID relax_start) r c \<notin> {Frontier, Visited, FinalPath}"
      using in_range_6[of r c] by (auto simp: tile_def relax_start_def)
  qed
  show ?thesis
    unfolding seeded_def app_inv_def wf_grid_def using 1 2 3
    by (simp add: relax_start_def interior_def inGrid_def getPos_def node_tile_def tile_def)
qed

lemma search_inv_relax_run: "search_inv 6 6 relax_run"
proof -
  have "steps AlgAStar 6 relax_start = Inr relax_run" by code_simp
  then show ?thesis
    using search_inv_steps[OF seeded_search_inv[OF seeded_relax_start], of AlgAStar 6] by simp
qed

lemma seeded_near_run: "seeded 5 5 near_run"
proof -
  have 1: "wf_dims 5 5 (GRID near_run)" by (simp add: wf_dims_def near_run_def)
  have 2: "\<forall>r c. in_range 5 5 r c \<and> \<not> inGrid 5 5 c r \<longrightarrow> tile (GRID near_run) r c = Wall"
  proof (intro allI impI)
    fix r c assume a: "in_range 5 5 r c \<and> \<not> inGrid 5 5 c r"
    then show "tile (GRID near_run) r c = Wall"
      using in_range_5[of r c] by (auto simp: inGrid_def tile_def near_run_def)
  qed
  have 3: "\<forall>r c. in_range 5 5 r c \<longrightarrow> tile (GRID near_run) r c \<notin> {Frontier, Visited, FinalPath}"
  proof (intro allI impI)
    fix r c assume a: "in_range 5 5 r c"
    then show "tile (GRID near_run) r c \<notin> {Frontier, Visited, FinalPath}"
      using in_range_5[of r c] by (auto simp: tile_def near_run_def)
  qed
  show ?thesis
    unfolding seeded_def app_inv_def wf_grid_def using 1 2 3
    by (simp add: near_run_def interior_def inGrid_def getPos_def node_tile_def tile_def)
qed


lemma seeded_detour_run: "seeded 5 5 detour_run"
proof -
  have 1: "wf_dims 5 5 (GRID detour_run)" by (simp add: wf_dims_def detour_run_def)
  have 2: "\<forall>r c. in_range 5 5 r c \<and> \<not> inGrid 5 5 c r \<longrightarrow> tile (GRID detour_run) r c = Wall"
  proof (intro allI impI)
    fix r c assume a: "in_range 5 5 r c \<and> \<not> inGrid 5 5 c r"
    then show "tile (GRID detour_run) r c = Wall"
      using in_range_5[of r c] by (auto simp: inGrid_def tile_def detour_run_def)
  qed
  have 3: "\<forall>r c. in_range 5 5 r c \<longrightarrow> tile (GRID detour_run) r c \<notin> {Frontier, Visited, FinalPath}"
  proof (intro allI impI)
    fix r c assume a: "in_range 5 5 r c"
    then show "tile (GRID detour_run) r c \<notin> {Frontier, Visited, FinalPath}"
      using in_range_5[of r c] by (auto simp: tile_def detour_run_def)
  qed
  show ?thesis
    unfolding seeded_def app_inv_def wf_grid_def using 1 2 3
    by (simp add: detour_run_def interior_def inGrid_def getPos_def node_tile_def tile_def)
qed




lemma body_closed:
  "loop_body alg cur s n = Inr s' \<Longrightarrow> closed_list s' = closed_list s"
  by (cases alg) (auto simp: admit_def Greedy_admit_def AStar_admit_def Let_def split: sum.splits if_splits)

lemma for_each_closed:
  "for_each (loop_body alg cur) ns s = Inr s' \<Longrightarrow> closed_list s' = closed_list s"
proof (induction ns arbitrary: s)
  case Nil then show ?case by simp
next
  case (Cons n ns)
  then show ?case using body_closed by (fastforce split: sum.splits)
qed

lemma step_closed:
  assumes "step alg s = Inr (r, s')" "open_list s \<noteq> []"
  shows "closed_list s' = closed_list s @ [removed alg (open_list s)]"
proof -
  let ?cur = "removed alg (open_list s)"
  from assms have e: "expand (loop_body alg ?cur) s ?cur (remaining alg (open_list s)) = Inr (r, s')"
    by (simp add: step_unfold)
  then obtain s1 where c: "close_node s ?cur (remaining alg (open_list s)) = Inr s1"
    by (auto simp: expand_def split: sum.splits)
  then have c1: "closed_list s1 = closed_list s @ [?cur]"
    by (auto simp: close_node_def split: sum.splits)
  show ?thesis
  proof (cases "node_eq ?cur (END s1)")
    case True
    then show ?thesis using e c c1 by (simp add: expand_def)
  next
    case False
    then obtain s2 where "for_each (loop_body alg ?cur) (getNeighbors (DIAGONAL s1) ?cur) s1 = Inr s2" "s' = s2"
      using e c by (auto simp: expand_def split: sum.splits)
    then show ?thesis using for_each_closed c1 by fastforce
  qed
qed

lemma step_after_failure_aux: "step alg s = Inr (Failure, s') \<Longrightarrow> open_list s = []"
  by (auto simp: step_unfold expand_def split: if_splits sum.splits)

lemma expanded_news:
  assumes ex: "expanded cur rest s s'" and m: "mset (open_list s) = add_mset cur (mset rest)"
  shows "{n \<in> set (open_list s'). getPos n \<notin> getPos ` set (open_list s)}
           = set (drop (length rest) (open_list s'))"
    and "getPos cur \<notin> getPos ` set (drop (length rest) (open_list s'))"
proof -
  from ex obtain olds news where e:
    "open_list s' = olds @ news" "length olds = length rest" "map getPos olds = map getPos rest"
    "\<forall>n \<in> set news. parent n = Some cur \<and>
         getPos n \<in> getPos ` set (getNeighbors (DIAGONAL s) cur) \<and>
         node_tile (GRID s) n \<noteq> Wall \<and>
         getPos n \<notin> getPos ` set (closed_list s @ cur # rest)"
    by (rule expandedE)
  have d: "drop (length rest) (open_list s') = news" using e(1,2) by simp
  have so: "set (open_list s) = insert cur (set rest)" using mset_add_set[OF m] .
  have po: "getPos ` set olds = getPos ` set rest" using map_pos_set[OF e(3)] .
  have 1: "\<And>n. n \<in> set news \<Longrightarrow> getPos n \<notin> getPos ` set (open_list s)"
    using e(4) so by auto
  have 2: "\<And>n. n \<in> set olds \<Longrightarrow> getPos n \<in> getPos ` set (open_list s)"
    using po so by blast
  have "{n \<in> set (olds @ news). getPos n \<notin> getPos ` set (open_list s)} = set news"
    using 1 2 by auto
  then have "{n \<in> set (open_list s'). getPos n \<notin> getPos ` set (open_list s)} = set news"
    by (simp only: e(1))
  then show "{n \<in> set (open_list s'). getPos n \<notin> getPos ` set (open_list s)}
           = set (drop (length rest) (open_list s'))"
    by (simp only: d)
  have "getPos cur \<notin> getPos ` set news"
  proof
    assume "getPos cur \<in> getPos ` set news"
    then obtain n where n: "n \<in> set news" "getPos cur = getPos n" by auto
    have "getPos cur \<in> getPos ` set (open_list s)" using so by simp
    then show False using 1[OF n(1)] n(2) by simp
  qed
  then show "getPos cur \<notin> getPos ` set (drop (length rest) (open_list s'))"
    unfolding d .
qed

lemma AStar_Continuing_exact:
  assumes wf: "wf_dims W H (GRID s)" and oi: "\<forall>n \<in> set (open_list s). interior W H n"
    and ne: "open_list s \<noteq> []" and st: "AStar s = Inr (Continuing, s')"
  shows "open_list s' =
     map (relax (hd (sort_key fCost (open_list s))) (END s) (DIAGONAL s)
            (filter (known (closed_state s (hd (sort_key fCost (open_list s))) (tl (sort_key fCost (open_list s)))))
               (getNeighbors (DIAGONAL s) (hd (sort_key fCost (open_list s))))))
         (tl (sort_key fCost (open_list s)))
     @ map (relaxed (hd (sort_key fCost (open_list s))) (END s) (DIAGONAL s))
         (filter (fresh (closed_state s (hd (sort_key fCost (open_list s))) (tl (sort_key fCost (open_list s)))))
            (getNeighbors (DIAGONAL s) (hd (sort_key fCost (open_list s)))))"
proof -
  let ?cur = "hd (sort_key fCost (open_list s))" and ?rest = "tl (sort_key fCost (open_list s))"
  let ?s1 = "closed_state s ?cur ?rest" and ?ns = "getNeighbors (DIAGONAL s) ?cur"
  have ci: "interior W H ?cur" using oi removed_in[OF ne, of AlgAStar] by simp
  have cur: "inGrid W H (node_x ?cur) (node_y ?cur)" using ci by (simp add: interior_def)
  have wf1: "wf_dims W H (GRID ?s1)" using wf by (simp add: wf_dims_node_upd)
  have np: "\<forall>n \<in> set ?ns. node_in_range W H n \<and> parent n = Some ?cur"
    using nbrs_in_range[OF cur] nbrs_fields by blast
  note d = nbrs_distinct[of "DIAGONAL s" ?cur]
  note fe = for_each_AStar_admit[OF wf1 np d]
  have e: "expand (AStar_admit ?cur) s ?cur ?rest = Inr (Continuing, s')"
    using st ne by (simp add: AStar_def Let_def)
  have c: "close_node s ?cur ?rest = Inr ?s1" using close_node_ok[OF wf interior_in_range[OF ci]] .
  have nend: "\<not> node_eq ?cur (END s)" using e c by (auto simp: expand_def split: if_splits)
  have A: "for_each (AStar_admit ?cur) ?ns ?s1 = Inr s'"
    using e c nend by (auto simp: expand_def split: sum.splits)
  have "Inr s' = Inr (?s1\<lparr>open_list := map (relax ?cur (END ?s1) (DIAGONAL ?s1) (filter (known ?s1) ?ns)) (open_list ?s1)
                          @ map (relaxed ?cur (END ?s1) (DIAGONAL ?s1)) (filter (fresh ?s1) ?ns),
            GRID := mark (filter (fresh ?s1) ?ns) (GRID ?s1)\<rparr>)"
    using fe unfolding A by simp
  then have "s' = ?s1\<lparr>open_list := map (relax ?cur (END ?s1) (DIAGONAL ?s1) (filter (known ?s1) ?ns)) (open_list ?s1)
                          @ map (relaxed ?cur (END ?s1) (DIAGONAL ?s1)) (filter (fresh ?s1) ?ns),
            GRID := mark (filter (fresh ?s1) ?ns) (GRID ?s1)\<rparr>"
    by (simp only: sum.inject)
  then have "open_list s' = map (relax ?cur (END ?s1) (DIAGONAL ?s1) (filter (known ?s1) ?ns)) (open_list ?s1)
                          @ map (relaxed ?cur (END ?s1) (DIAGONAL ?s1)) (filter (fresh ?s1) ?ns)"
    by simp
  then show ?thesis by simp
qed

lemma for_each_cells:
  assumes bd: "\<And>g a. wf_dims W H g \<Longrightarrow> a \<in> A \<Longrightarrow>
       \<exists>g'. f g a = Inr g' \<and> wf_dims W H g' \<and>
         (\<forall>r c. in_range W H r c \<longrightarrow>
            tile g' r c = (if hit a r c \<and> cond (tile g r c) then v else tile g r c))"
  shows "set as \<subseteq> A \<Longrightarrow> wf_dims W H g \<Longrightarrow>
     \<exists>g'. for_each f as g = Inr g' \<and> wf_dims W H g' \<and>
       (\<forall>r c. in_range W H r c \<longrightarrow>
          tile g' r c = (if (\<exists>a \<in> set as. hit a r c) \<and> cond (tile g r c) then v else tile g r c))"
proof (induction as arbitrary: g)
  case Nil
  then show ?case by simp
next
  case (Cons a as)
  from bd[OF Cons.prems(2), of a] Cons.prems(1) obtain g1 where
    g1: "f g a = Inr g1" "wf_dims W H g1"
    "\<forall>r c. in_range W H r c \<longrightarrow>
        tile g1 r c = (if hit a r c \<and> cond (tile g r c) then v else tile g r c)" by auto
  from Cons.IH[OF _ g1(2)] Cons.prems(1) obtain g' where
    g': "for_each f as g1 = Inr g'" "wf_dims W H g'"
    "\<forall>r c. in_range W H r c \<longrightarrow>
        tile g' r c = (if (\<exists>a \<in> set as. hit a r c) \<and> cond (tile g1 r c) then v else tile g1 r c)" by auto
  have "\<forall>r c. in_range W H r c \<longrightarrow>
          tile g' r c = (if (\<exists>b \<in> set (a # as). hit b r c) \<and> cond (tile g r c) then v else tile g r c)"
  proof (intro allI impI)
    fix r c assume rc: "in_range W H r c"
    show "tile g' r c = (if (\<exists>b \<in> set (a # as). hit b r c) \<and> cond (tile g r c) then v else tile g r c)"
      using g1(3)[rule_format, OF rc] g'(3)[rule_format, OF rc] by auto
  qed
  then show ?case using g1(1) g'(1,2) by simp
qed

lemma grid_set_tile:
  assumes "wf_dims W H g" "in_range W H y x"
  shows "\<exists>g'. grid_set g y x v = Inr g' \<and> wf_dims W H g' \<and>
         (\<forall>r c. in_range W H r c \<longrightarrow> tile g' r c = (if r = y \<and> c = x then v else tile g r c))"
  using assms by (simp add: grid_set_ok wf_dims_upd tile_upd)

lemma clear_cell_ok:
  assumes "wf_dims W H g" "a \<in> {xy. in_range W H (snd xy) (fst xy)}"
  shows "\<exists>g'. clear_cell g a = Inr g' \<and> wf_dims W H g' \<and>
         (\<forall>r c. in_range W H r c \<longrightarrow>
            tile g' r c = (if (r = snd a \<and> c = fst a) \<and> True then Path else tile g r c))"
  using grid_set_tile[OF assms(1), of "snd a" "fst a" Path] assms(2) by (simp add: clear_cell_def)

lemma unmark_cell_ok:
  assumes "wf_dims W H g" "a \<in> {xy. in_range W H (snd xy) (fst xy)}"
  shows "\<exists>g'. unmark_cell g a = Inr g' \<and> wf_dims W H g' \<and>
         (\<forall>r c. in_range W H r c \<longrightarrow>
            tile g' r c = (if (r = snd a \<and> c = fst a) \<and> tile g r c \<in> {Frontier, Visited, FinalPath}
                           then Path else tile g r c))"
proof -
  have ir: "in_range W H (snd a) (fst a)" using assms(2) by simp
  show ?thesis
  proof (cases "tile g (snd a) (fst a) \<in> {Frontier, Visited, FinalPath}")
    case True
    then show ?thesis
      using grid_set_tile[OF assms(1) ir, of Path] grid_get_ok[OF assms(1) ir]
      by (auto simp: unmark_cell_def)
  next
    case False
    then show ?thesis
      using grid_get_ok[OF assms(1) ir] assms(1) by (auto simp: unmark_cell_def)
  qed
qed

lemma inner_cells_mem: "(x, y) \<in> set (inner_cells W H) \<longleftrightarrow> inGrid W H x y"
proof -
  have "(x, y) \<in> set (inner_cells W H) \<longleftrightarrow> x \<in> {1..W - 2} \<and> y \<in> {1..H - 2}"
    by (force simp: inner_cells_def)
  also have "\<dots> \<longleftrightarrow> inGrid W H x y" by (auto simp: inGrid_def)
  finally show ?thesis .
qed

lemma inner_cells_set: "set (inner_cells W H) = {xy. inGrid W H (fst xy) (snd xy)}"
  using inner_cells_mem by auto

lemma inGrid_imp_range: "inGrid W H x y \<Longrightarrow> in_range W H y x"
  by (simp add: inGrid_def in_range_def)

lemma inner_cells_range: "set (inner_cells W H) \<subseteq> {xy. in_range W H (snd xy) (fst xy)}"
  unfolding inner_cells_set using inGrid_imp_range by auto

lemma clear_loop:
  assumes "wf_dims W H g"
  shows "\<exists>g'. for_each clear_cell (inner_cells W H) g = Inr g' \<and> wf_dims W H g' \<and>
       (\<forall>r c. in_range W H r c \<longrightarrow> tile g' r c = (if inGrid W H c r then Path else tile g r c))"
proof -
  from for_each_cells[where f = clear_cell and A = "{xy. in_range W H (snd xy) (fst xy)}"
      and hit = "\<lambda>a r c. r = snd a \<and> c = fst a" and cond = "\<lambda>_. True" and v = Path
      and W = W and H = H, OF clear_cell_ok inner_cells_range assms]
  obtain g' where g': "for_each clear_cell (inner_cells W H) g = Inr g'" "wf_dims W H g'"
    "\<forall>r c. in_range W H r c \<longrightarrow>
          tile g' r c = (if (\<exists>a \<in> set (inner_cells W H). r = snd a \<and> c = fst a) \<and> True then Path else tile g r c)"
    by blast
  have "\<And>r c. (\<exists>a \<in> set (inner_cells W H). r = snd a \<and> c = fst a) \<longleftrightarrow> inGrid W H c r"
    unfolding inner_cells_set by auto
  then show ?thesis using g' by simp
qed

lemma unmark_loop:
  assumes "wf_dims W H g"
  shows "\<exists>g'. for_each unmark_cell (inner_cells W H) g = Inr g' \<and> wf_dims W H g' \<and>
       (\<forall>r c. in_range W H r c \<longrightarrow>
          tile g' r c = (if inGrid W H c r \<and> tile g r c \<in> {Frontier, Visited, FinalPath} then Path else tile g r c))"
proof -
  from for_each_cells[where f = unmark_cell and A = "{xy. in_range W H (snd xy) (fst xy)}"
      and hit = "\<lambda>a r c. r = snd a \<and> c = fst a" and cond = "\<lambda>t. t \<in> {Frontier, Visited, FinalPath}" and v = Path
      and W = W and H = H, OF unmark_cell_ok inner_cells_range assms]
  obtain g' where g': "for_each unmark_cell (inner_cells W H) g = Inr g'" "wf_dims W H g'"
    "\<forall>r c. in_range W H r c \<longrightarrow>
          tile g' r c = (if (\<exists>a \<in> set (inner_cells W H). r = snd a \<and> c = fst a) \<and> tile g r c \<in> {Frontier, Visited, FinalPath} then Path else tile g r c)"
    by blast
  have "\<And>r c. (\<exists>a \<in> set (inner_cells W H). r = snd a \<and> c = fst a) \<longleftrightarrow> inGrid W H c r"
    unfolding inner_cells_set by auto
  then show ?thesis using g' by simp
qed

lemma mark_ends_ok:
  assumes "wf_dims W H g" "interior W H (START s)" "interior W H (END s)"
  shows "\<exists>g'. mark_ends s g = Inr g' \<and> wf_dims W H g' \<and>
       (\<forall>r c. in_range W H r c \<longrightarrow>
          tile g' r c = (if (r, c) = getPos (END s) then EndTile
                         else if (r, c) = getPos (START s) then StartTile else tile g r c))"
proof -
  have rs: "in_range W H (node_y (START s)) (node_x (START s))"
    and re: "in_range W H (node_y (END s)) (node_x (END s))"
    using assms(2,3) interior_in_range by (auto simp: node_in_range_def)
  from grid_set_tile[OF assms(1) rs, of StartTile] obtain g1 where
    g1: "grid_set g (node_y (START s)) (node_x (START s)) StartTile = Inr g1" "wf_dims W H g1"
    "\<forall>r c. in_range W H r c \<longrightarrow> tile g1 r c = (if r = node_y (START s) \<and> c = node_x (START s) then StartTile else tile g r c)"
    by blast
  from grid_set_tile[OF g1(2) re, of EndTile] obtain g2 where
    g2: "grid_set g1 (node_y (END s)) (node_x (END s)) EndTile = Inr g2" "wf_dims W H g2"
    "\<forall>r c. in_range W H r c \<longrightarrow> tile g2 r c = (if r = node_y (END s) \<and> c = node_x (END s) then EndTile else tile g1 r c)"
    by blast
  show ?thesis using g1 g2 by (auto simp: mark_ends_def getPos_def)
qed

lemma wf_grid_same_border:
  assumes "wf_grid W H g" "wf_dims W H g'"
    and "\<And>r c. in_range W H r c \<Longrightarrow> \<not> inGrid W H c r \<Longrightarrow> tile g' r c = tile g r c"
  shows "wf_grid W H g'"
  using assms unfolding wf_grid_def by simp

lemma interior_not_border: "interior W H n \<Longrightarrow> \<not> inGrid W H c r \<Longrightarrow> (r, c) \<noteq> getPos n"
  by (auto simp: interior_def getPos_def)

lemma clear_geo:
  assumes "geo_inv W H s"
  shows "\<exists>s'. clear W H s = Inr s' \<and> geo_inv W H s'"
proof -
  have wfg: "wf_grid W H (GRID s)" and wf: "wf_dims W H (GRID s)"
    and si: "interior W H (START s)" and ei: "interior W H (END s)"
    using assms by (auto simp: geo_inv_def wf_grid_def)
  from clear_loop[OF wf] obtain g1 where
    g1: "for_each clear_cell (inner_cells W H) (GRID s) = Inr g1" "wf_dims W H g1"
    "\<forall>r c. in_range W H r c \<longrightarrow> tile g1 r c = (if inGrid W H c r then Path else tile (GRID s) r c)"
    by blast
  from mark_ends_ok[OF g1(2) si ei] obtain g2 where
    g2: "mark_ends s g1 = Inr g2" "wf_dims W H g2"
    "\<forall>r c. in_range W H r c \<longrightarrow>
          tile g2 r c = (if (r, c) = getPos (END s) then EndTile
                         else if (r, c) = getPos (START s) then StartTile else tile g1 r c)"
    by blast
  have "wf_grid W H g2"
    using g1(3) g2(3) interior_not_border[OF si] interior_not_border[OF ei]
    by (intro wf_grid_same_border[OF wfg g2(2)]) simp
  then have "geo_inv W H (s\<lparr>GRID := g2, searching := False\<rparr>)"
    using assms by (simp add: geo_inv_def)
  then show ?thesis using g1(1) g2(1) by (simp add: clear_def)
qed

lemma restart_grid:
  assumes "geo_inv W H s"
  shows "\<exists>g1 g2. for_each unmark_cell (inner_cells W H) (GRID s) = Inr g1 \<and> mark_ends s g1 = Inr g2 \<and>
           wf_grid W H g2 \<and>
           (\<forall>r c. in_range W H r c \<longrightarrow>
              tile g2 r c = (if (r, c) = getPos (END s) then EndTile
                             else if (r, c) = getPos (START s) then StartTile
                             else if inGrid W H c r \<and> tile (GRID s) r c \<in> {Frontier, Visited, FinalPath} then Path
                             else tile (GRID s) r c))"
proof -
  have wfg: "wf_grid W H (GRID s)" and wf: "wf_dims W H (GRID s)"
    and si: "interior W H (START s)" and ei: "interior W H (END s)"
    using assms by (auto simp: geo_inv_def wf_grid_def)
  from unmark_loop[OF wf] obtain g1 where
    g1: "for_each unmark_cell (inner_cells W H) (GRID s) = Inr g1" "wf_dims W H g1"
    "\<forall>r c. in_range W H r c \<longrightarrow>
          tile g1 r c = (if inGrid W H c r \<and> tile (GRID s) r c \<in> {Frontier, Visited, FinalPath} then Path else tile (GRID s) r c)"
    by blast
  from mark_ends_ok[OF g1(2) si ei] obtain g2 where
    g2: "mark_ends s g1 = Inr g2" "wf_dims W H g2"
    "\<forall>r c. in_range W H r c \<longrightarrow>
          tile g2 r c = (if (r, c) = getPos (END s) then EndTile
                         else if (r, c) = getPos (START s) then StartTile else tile g1 r c)"
    by blast
  have "wf_grid W H g2"
    using g1(3) g2(3) interior_not_border[OF si] interior_not_border[OF ei]
    by (intro wf_grid_same_border[OF wfg g2(2)]) simp
  moreover have "\<forall>r c. in_range W H r c \<longrightarrow>
              tile g2 r c = (if (r, c) = getPos (END s) then EndTile
                             else if (r, c) = getPos (START s) then StartTile
                             else if inGrid W H c r \<and> tile (GRID s) r c \<in> {Frontier, Visited, FinalPath} then Path
                             else tile (GRID s) r c)"
    using g1(3) g2(3) by simp
  ultimately show ?thesis using g1(1) g2(1) by blast
qed

lemma reset_geo:
  assumes "geo_inv W H s"
  shows "\<exists>s'. reset W H s = Inr s' \<and> geo_inv W H s'"
proof -
  from restart_grid[OF assms] obtain g1 g2 where
    g: "for_each unmark_cell (inner_cells W H) (GRID s) = Inr g1" "mark_ends s g1 = Inr g2" "wf_grid W H g2"
    by blast
  have "geo_inv W H (s\<lparr>open_list := [START s], closed_list := [], GRID := g2, searching := False\<rparr>)"
    using assms g(3) by (simp add: geo_inv_def)
  then show ?thesis using g(1,2) by (simp add: reset_def)
qed

lemma start_geo:
  assumes "geo_inv W H s"
  shows "\<exists>s'. start W H s = Inr s' \<and> geo_inv W H s'"
proof -
  from restart_grid[OF assms] obtain g1 g2 where
    g: "for_each unmark_cell (inner_cells W H) (GRID s) = Inr g1" "mark_ends s g1 = Inr g2" "wf_grid W H g2"
    by blast
  have "geo_inv W H (s\<lparr>open_list := [START s], closed_list := [], GRID := g2, searching := True\<rparr>)"
    using assms g(3) by (simp add: geo_inv_def)
  then show ?thesis using g(1,2) by (simp add: start_def)
qed

lemma app_inv_geo: "app_inv W H s \<Longrightarrow> open_list s = [] \<Longrightarrow> closed_list s = [] \<Longrightarrow> geo_inv W H s"
  by (simp add: app_inv_def geo_inv_def)

lemma start_seeded:
  assumes a: "app_inv W H s" and g: "geo_inv W H s"
  shows "\<exists>s'. start W H s = Inr s' \<and> seeded W H s' \<and> searching s'"
proof -
  have wfg: "wf_grid W H (GRID s)"
    and si: "interior W H (START s)" and ei: "interior W H (END s)"
    and ne: "getPos (START s) \<noteq> getPos (END s)"
    using a by (auto simp: app_inv_def)
  from restart_grid[OF g] obtain g1 g2 where
    g: "for_each unmark_cell (inner_cells W H) (GRID s) = Inr g1" "mark_ends s g1 = Inr g2" "wf_grid W H g2"
    "\<forall>r c. in_range W H r c \<longrightarrow>
              tile g2 r c = (if (r, c) = getPos (END s) then EndTile
                             else if (r, c) = getPos (START s) then StartTile
                             else if inGrid W H c r \<and> tile (GRID s) r c \<in> {Frontier, Visited, FinalPath} then Path
                             else tile (GRID s) r c)"
    by blast
  let ?s' = "s\<lparr>open_list := [START s], closed_list := [], GRID := g2, searching := True\<rparr>"
  have rs: "in_range W H (node_y (START s)) (node_x (START s))"
    and re: "in_range W H (node_y (END s)) (node_x (END s))"
    using si ei interior_in_range by (auto simp: node_in_range_def)
  have ts: "node_tile g2 (START s) = StartTile"
    using g(4)[rule_format, OF rs] ne by (simp add: node_tile_def getPos_def)
  have te: "node_tile g2 (END s) = EndTile"
    using g(4)[rule_format, OF re] by (simp add: node_tile_def getPos_def)
  have cl: "\<forall>r c. in_range W H r c \<longrightarrow> tile g2 r c \<notin> {Frontier, Visited, FinalPath}"
  proof (intro allI impI)
    fix r c assume rc: "in_range W H r c"
    have "\<not> inGrid W H c r \<Longrightarrow> tile (GRID s) r c = Wall" using wfg rc by (simp add: wf_grid_def)
    then show "tile g2 r c \<notin> {Frontier, Visited, FinalPath}"
      using g(4)[rule_format, OF rc] by (cases "inGrid W H c r") auto
  qed
  have "seeded W H ?s'"
    using a g(3) ts te cl by (simp add: seeded_def app_inv_def)
  then show ?thesis using g(1,2) by (simp add: start_def)
qed

lemma mouseHandler_geo:
  assumes "geo_inv W H s"
  shows "\<exists>s'. mouseHandler W H s pos clickType = Inr s' \<and> geo_inv W H s'"
proof -
  obtain y x where yx: "getCoordsFromPosition (fst pos) (snd pos) = (y, x)" by fastforce
  have wfg: "wf_grid W H (GRID s)" and wf: "wf_dims W H (GRID s)"
    using assms by (auto simp: geo_inv_def wf_grid_def)
  show ?thesis
  proof (cases "inGrid W H x y")
    case False
    then show ?thesis using assms yx by (simp add: mouseHandler_def)
  next
    case True
    then have ir: "in_range W H y x" by (rule inGrid_imp_range)
    have k: "\<And>v. \<exists>g'. grid_set (GRID s) y x v = Inr g' \<and> geo_inv W H (s\<lparr>GRID := g'\<rparr>)"
    proof -
      fix v
      from grid_set_tile[OF wf ir, of v] obtain g' where
        g': "grid_set (GRID s) y x v = Inr g'" "wf_dims W H g'"
        "\<forall>r c. in_range W H r c \<longrightarrow> tile g' r c = (if r = y \<and> c = x then v else tile (GRID s) r c)"
        by blast
      have "wf_grid W H g'"
        using g'(3) True by (intro wf_grid_same_border[OF wfg g'(2)]) auto
      then show "\<exists>g'. grid_set (GRID s) y x v = Inr g' \<and> geo_inv W H (s\<lparr>GRID := g'\<rparr>)"
        using g'(1) assms by (auto simp: geo_inv_def)
    qed
    show ?thesis
      using True yx grid_get_ok[OF wf ir] k[of Wall] k[of Path] assms
      by (auto simp: mouseHandler_def)
  qed
qed

lemma step_geo:
  assumes "geo_inv W H s"
  shows "\<exists>r s'. step alg s = Inr (r, s') \<and> geo_inv W H s'"
proof (cases "open_list s = []")
  case True
  then show ?thesis using assms by (simp add: step_empty)
next
  case False
  have wf: "wf_dims W H (GRID s)" and oi: "\<forall>n \<in> set (open_list s). interior W H n"
    using assms by (auto simp: geo_inv_def wf_grid_def)
  from step_ok[OF wf oi False, of alg] obtain r s' where
    1: "step alg s = Inr (r, s')" "expanded (removed alg (open_list s)) (remaining alg (open_list s)) s s'"
    by blast
  then show ?thesis
    using geo_inv_expanded[OF assms removed_in[OF False] remaining_subset[OF False] 1(2)] by blast
qed

lemma step_accesses:
  assumes inv: "geo_inv W H s" and st: "step alg s = Inr (r, s')" and nf: "r \<noteq> Failure"
  shows "interior W H (last (closed_list s')) \<and>
         (\<forall>n \<in> set (getNeighbors (DIAGONAL s) (last (closed_list s'))). node_in_range W H n)"
proof -
  have ne: "open_list s \<noteq> []" using st nf by (auto simp: step_empty)
  have "last (closed_list s') = removed alg (open_list s)" using step_closed[OF st ne] by simp
  moreover have "interior W H (removed alg (open_list s))"
    using inv removed_in[OF ne, of alg] by (auto simp: geo_inv_def)
  ultimately show ?thesis using nbrs_in_range by (auto simp: interior_def)
qed

lemma border_rows_ok:
  assumes "1 \<le> H" "wf_dims W H g" "x \<in> {0..W - 1}"
  shows "\<exists>g'. border_rows H g x = Inr g' \<and> wf_dims W H g' \<and>
         (\<forall>r c. in_range W H r c \<longrightarrow>
            tile g' r c = (if ((r = 0 \<or> r = H - 1) \<and> c = x) \<and> True then Wall else tile g r c))"
proof -
  have r0: "in_range W H 0 x" and r1: "in_range W H (H - 1) x"
    using assms(1,3) by (auto simp: in_range_def)
  from grid_set_tile[OF assms(2) r0, of Wall] obtain g1 where
    g1: "grid_set g 0 x Wall = Inr g1" "wf_dims W H g1"
    "\<forall>r c. in_range W H r c \<longrightarrow> tile g1 r c = (if r = 0 \<and> c = x then Wall else tile g r c)"
    by blast
  from grid_set_tile[OF g1(2) r1, of Wall] obtain g2 where
    g2: "grid_set g1 (H - 1) x Wall = Inr g2" "wf_dims W H g2"
    "\<forall>r c. in_range W H r c \<longrightarrow> tile g2 r c = (if r = H - 1 \<and> c = x then Wall else tile g1 r c)"
    by blast
  show ?thesis using g1 g2 by (auto simp: border_rows_def)
qed

lemma border_cols_ok:
  assumes "1 \<le> W" "wf_dims W H g" "y \<in> {0..H - 1}"
  shows "\<exists>g'. border_cols W g y = Inr g' \<and> wf_dims W H g' \<and>
         (\<forall>r c. in_range W H r c \<longrightarrow>
            tile g' r c = (if (r = y \<and> (c = 0 \<or> c = W - 1)) \<and> True then Wall else tile g r c))"
proof -
  have r0: "in_range W H y 0" and r1: "in_range W H y (W - 1)"
    using assms(1,3) by (auto simp: in_range_def)
  from grid_set_tile[OF assms(2) r0, of Wall] obtain g1 where
    g1: "grid_set g y 0 Wall = Inr g1" "wf_dims W H g1"
    "\<forall>r c. in_range W H r c \<longrightarrow> tile g1 r c = (if r = y \<and> c = 0 then Wall else tile g r c)"
    by blast
  from grid_set_tile[OF g1(2) r1, of Wall] obtain g2 where
    g2: "grid_set g1 y (W - 1) Wall = Inr g2" "wf_dims W H g2"
    "\<forall>r c. in_range W H r c \<longrightarrow> tile g2 r c = (if r = y \<and> c = W - 1 then Wall else tile g1 r c)"
    by blast
  show ?thesis using g1 g2 by (auto simp: border_cols_def)
qed

lemma wf_dims_replicate: "0 \<le> W \<Longrightarrow> 0 \<le> H \<Longrightarrow> wf_dims W H (replicate (nat H) (replicate (nat W) v))"
  by (simp add: wf_dims_def)

lemma main_setup_ok:
  assumes W: "3 \<le> W" and H: "3 \<le> H"
  shows "\<exists>s. main_setup W H = Inr s \<and> geo_inv W H s \<and>
           START s = Node 1 1 None 0 0 \<and> END s = Node (H - 2) (W - 2) None 0 0 \<and>
           open_list s = [] \<and> closed_list s = []"
proof -
  let ?g0 = "replicate (nat H) (replicate (nat W) Path)"
  have wf0: "wf_dims W H ?g0" using W H by (simp add: wf_dims_replicate)
  have H1: "1 \<le> H" and W1: "1 \<le> W" using W H by simp_all
  from for_each_cells[where f = "border_rows H" and A = "{0..W - 1}"
      and hit = "\<lambda>x r c. (r = 0 \<or> r = H - 1) \<and> c = x" and cond = "\<lambda>_. True" and v = Wall
      and W = W and H = H and as = "[0..W - 1]" and g = ?g0, OF border_rows_ok[OF H1] _ wf0]
  obtain g1 where g1: "for_each (border_rows H) [0..W - 1] ?g0 = Inr g1" "wf_dims W H g1"
    "\<forall>r c. in_range W H r c \<longrightarrow>
          tile g1 r c = (if (\<exists>x \<in> set [0..W - 1]. (r = 0 \<or> r = H - 1) \<and> c = x) \<and> True then Wall else tile ?g0 r c)"
    by auto
  from for_each_cells[where f = "border_cols W" and A = "{0..H - 1}"
      and hit = "\<lambda>y r c. r = y \<and> (c = 0 \<or> c = W - 1)" and cond = "\<lambda>_. True" and v = Wall
      and W = W and H = H and as = "[0..H - 1]" and g = g1, OF border_cols_ok[OF W1] _ g1(2)]
  obtain g2 where g2: "for_each (border_cols W) [0..H - 1] g1 = Inr g2" "wf_dims W H g2"
    "\<forall>r c. in_range W H r c \<longrightarrow>
          tile g2 r c = (if (\<exists>y \<in> set [0..H - 1]. r = y \<and> (c = 0 \<or> c = W - 1)) \<and> True then Wall else tile g1 r c)"
    by auto
  have b2: "\<And>r c. in_range W H r c \<Longrightarrow> \<not> inGrid W H c r \<Longrightarrow> tile g2 r c = Wall"
  proof -
    fix r c assume rc: "in_range W H r c" and nb: "\<not> inGrid W H c r"
    have "r = 0 \<or> r = H - 1 \<or> c = 0 \<or> c = W - 1"
      using rc nb by (auto simp: in_range_def inGrid_def)
    moreover have "r \<in> set [0..H - 1]" "c \<in> set [0..W - 1]" using rc by (auto simp: in_range_def)
    ultimately show "tile g2 r c = Wall"
      using g1(3)[rule_format, OF rc] g2(3)[rule_format, OF rc] by auto
  qed
  have rs: "in_range W H 1 1" and re: "in_range W H (H - 2) (W - 2)"
    using W H by (auto simp: in_range_def)
  from grid_set_tile[OF g2(2) rs, of StartTile] obtain g3 where
    g3: "grid_set g2 1 1 StartTile = Inr g3" "wf_dims W H g3"
    "\<forall>r c. in_range W H r c \<longrightarrow> tile g3 r c = (if r = 1 \<and> c = 1 then StartTile else tile g2 r c)"
    by blast
  from grid_set_tile[OF g3(2) re, of EndTile] obtain g4 where
    g4: "grid_set g3 (H - 2) (W - 2) EndTile = Inr g4" "wf_dims W H g4"
    "\<forall>r c. in_range W H r c \<longrightarrow> tile g4 r c = (if r = H - 2 \<and> c = W - 2 then EndTile else tile g3 r c)"
    by blast
  have b4: "\<forall>r c. in_range W H r c \<and> \<not> inGrid W H c r \<longrightarrow> tile g4 r c = Wall"
  proof (intro allI impI)
    fix r c assume a: "in_range W H r c \<and> \<not> inGrid W H c r"
    then have "\<not> (r = 1 \<and> c = 1)" "\<not> (r = H - 2 \<and> c = W - 2)"
      using W H by (auto simp: inGrid_def)
    then show "tile g4 r c = Wall"
      using a b2[of r c] g3(3) g4(3) by simp
  qed
  let ?s = "\<lparr>GRID = g4, START = Node 1 1 None 0 0, END = Node (H - 2) (W - 2) None 0 0, DIAGONAL = True,
             open_list = [], closed_list = [], searching = False\<rparr>"
  have ms: "main_setup W H = Inr ?s"
    using g1(1) g2(1) g3(1) g4(1) by (simp add: main_setup_def setStart_def setEnd_def)
  have "geo_inv W H ?s"
    using g4(2) b4 W H by (simp add: geo_inv_def wf_grid_def interior_def inGrid_def)
  then show ?thesis using ms by simp
qed

lemma main_setup_app_inv:
  assumes W: "4 \<le> W" and H: "3 \<le> H"
  shows "\<exists>s. main_setup W H = Inr s \<and> app_inv W H s \<and> geo_inv W H s"
proof -
  from main_setup_ok[OF _ H, of W] W obtain s where
    s: "main_setup W H = Inr s" "geo_inv W H s"
    "START s = Node 1 1 None 0 0" "END s = Node (H - 2) (W - 2) None 0 0" by auto
  have "app_inv W H s" using s(2,3,4) W by (simp add: app_inv_def geo_inv_def getPos_def)
  then show ?thesis using s by blast
qed

lemma border_is_wall:
  assumes "geo_inv W H s" "in_range W H r c" "r = 0 \<or> r = H - 1 \<or> c = 0 \<or> c = W - 1"
  shows "grid_get (GRID s) r c = Inr Wall"
proof -
  have wfg: "wf_grid W H (GRID s)" using assms(1) by (simp add: geo_inv_def)
  then have wf: "wf_dims W H (GRID s)" by (simp add: wf_grid_def)
  have "\<not> inGrid W H c r" using assms(3) by (auto simp: inGrid_def)
  then have "tile (GRID s) r c = Wall" using wfg assms(2) by (simp add: wf_grid_def)
  then show ?thesis using grid_get_ok[OF wf assms(2)] by simp
qed

lemma chain_None: "parent n = None \<Longrightarrow> chain n = [n]"
  by (simp add: chain.simps)

lemma chain_Some: "parent n = Some p \<Longrightarrow> chain n = n # chain p"
  by (simp add: chain.simps)

lemma chain_ne [simp]: "chain n \<noteq> []"
  by (subst chain.simps) simp

lemma hd_chain [simp]: "hd (chain n) = n"
  by (subst chain.simps) simp

lemma paint_Nil [simp]: "paint [] g = g" by (simp add: paint_def)
lemma paint_Cons: "paint (n # ns) g = paint ns (node_upd g n FinalPath)" by (simp add: paint_def)

lemma wf_dims_paint: "wf_dims W H g \<Longrightarrow> wf_dims W H (paint ns g)"
  unfolding paint_def by (induction ns arbitrary: g) (simp_all add: wf_dims_node_upd)

lemma tile_paint:
  "wf_dims W H g \<Longrightarrow> \<forall>n \<in> set ns. node_in_range W H n \<Longrightarrow> in_range W H r c \<Longrightarrow>
   tile (paint ns g) r c = (if (r, c) \<in> getPos ` set ns then FinalPath else tile g r c)"
proof (induction ns arbitrary: g)
  case Nil then show ?case by simp
next
  case (Cons n ns)
  have "tile (paint ns (node_upd g n FinalPath)) r c =
        (if (r, c) \<in> getPos ` set ns then FinalPath else tile (node_upd g n FinalPath) r c)"
    using Cons.prems by (intro Cons.IH) (simp_all add: wf_dims_node_upd)
  then show ?case using Cons.prems by (simp add: paint_Cons tile_node_upd)
qed

lemma find_distinct_pos:
  "distinct (map getPos cl) \<Longrightarrow> p \<in> set cl \<Longrightarrow> find (\<lambda>node. node_eq p node) cl = Some p"
proof (induction cl)
  case Nil then show ?case by simp
next
  case (Cons a cl)
  show ?case
  proof (cases "a = p")
    case True then show ?thesis by (simp add: node_eq_def)
  next
    case False
    then have pin: "p \<in> set cl" using Cons.prems by simp
    then have "getPos p \<in> getPos ` set cl" by (rule imageI)
    then have "getPos a \<noteq> getPos p" using Cons.prems(1) by auto
    then have "\<not> node_eq p a" by (simp add: node_eq_getPos)
    then show ?thesis using Cons.IH pin Cons.prems(1) by simp
  qed
qed

lemma walk_chain:
  "wf_dims W H g \<Longrightarrow> \<forall>n \<in> set (chain cur). node_in_range W H n \<Longrightarrow>
   distinct (map getPos cl) \<Longrightarrow> set (tl (chain cur)) \<subseteq> set cl \<Longrightarrow>
   walk cl g cur (parent cur) = Some (Inr (paint (butlast (chain cur)) g))"
proof (induction cur arbitrary: g rule: chain.induct)
  case (1 n)
  show ?case
  proof (cases "parent n")
    case None
    then show ?thesis by (simp add: walk.simps chain_None)
  next
    case (Some p)
    have ch: "chain n = n # chain p" using Some by (rule chain_Some)
    have nr: "node_in_range W H n" using "1.prems"(2) ch by simp
    have pin: "p \<in> set cl" using "1.prems"(4) ch by (metis hd_chain chain_ne list.set_sel(1) list.sel(3) subsetD)
    have f: "find (\<lambda>node. node_eq p node) cl = Some p"
      using find_distinct_pos[OF "1.prems"(3) pin] .
    have ih: "walk cl (node_upd g n FinalPath) p (parent p) =
           Some (Inr (paint (butlast (chain p)) (node_upd g n FinalPath)))"
    proof (rule "1.IH"[OF Some])
      show "wf_dims W H (node_upd g n FinalPath)" using "1.prems"(1) by (rule wf_dims_node_upd)
      show "\<forall>n \<in> set (chain p). node_in_range W H n" using "1.prems"(2) ch by simp
      show "distinct (map getPos cl)" by fact
      show "set (tl (chain p)) \<subseteq> set cl"
        using "1.prems"(4) ch by (metis list.sel(3) list.set_sel(2) chain_ne subsetD subsetI)
    qed
    have "walk cl g n (Some p) = walk cl (node_upd g n FinalPath) p (parent p)"
      by (subst walk.simps) (simp add: node_set_ok[OF "1.prems"(1) nr] f)
    then show ?thesis using ih Some ch by (simp add: paint_Cons)
  qed
qed

lemma chain_set: "set (chain n) = insert n (set (tl (chain n)))"
proof -
  have "chain n = n # tl (chain n)" using hd_Cons_tl[OF chain_ne, of n] by simp
  from arg_cong[OF this, of set] show ?thesis by simp
qed

lemma nth_in_take:
  assumes "j < i" "i \<le> length xs" shows "xs ! j \<in> set (take i xs)"
proof -
  have "j < length (take i xs)" using assms by simp
  then have "take i xs ! j \<in> set (take i xs)" by (rule nth_mem)
  then show ?thesis using assms(1) by simp
qed

lemma chain_closed:
  assumes ci: "chain_inv s"
  shows "i < length (closed_list s) \<Longrightarrow>
     set (tl (chain (closed_list s ! i))) \<subseteq> set (take i (closed_list s)) \<and>
     last (chain (closed_list s ! i)) = START s"
proof (induction i rule: less_induct)
  case (less i)
  let ?cl = "closed_list s" and ?n = "closed_list s ! i"
  have nin: "?n \<in> set (open_list s @ ?cl)" using less.prems by simp
  show ?case
  proof (cases "parent ?n")
    case None
    have "case parent ?n of None \<Rightarrow> ?n = START s | Some p \<Rightarrow> p \<in> set ?cl"
      using ci nin unfolding chain_inv_def by blast
    then have "?n = START s" using None by simp
    then show ?thesis using None by (simp add: chain_None)
  next
    case (Some p)
    then obtain j where j: "j < i" "?cl ! j = p" using ci less.prems unfolding chain_inv_def by blast
    have jl: "j < length ?cl" using j(1) less.prems by simp
    from less.IH[OF j(1) jl] j(2)
    have ih: "set (tl (chain p)) \<subseteq> set (take j ?cl)" "last (chain p) = START s" by simp_all
    have ch: "chain ?n = ?n # chain p" using Some by (rule chain_Some)
    have "p \<in> set (take i ?cl)" using nth_in_take[OF j(1), of ?cl] less.prems j(2) by simp
    moreover have "set (take j ?cl) \<subseteq> set (take i ?cl)"
      using j(1) by (intro set_take_subset_set_take) simp
    ultimately have "set (chain p) \<subseteq> set (take i ?cl)"
      using ih(1) chain_set[of p] by auto
    then show ?thesis using ch ih(2) by simp
  qed
qed

lemma pos_not_in_take:
  assumes "distinct (map getPos xs)" "i < length xs"
  shows "getPos (xs ! i) \<notin> getPos ` set (take i xs)"
proof -
  have "xs = take i xs @ xs ! i # drop (Suc i) xs" using assms(2) by (rule id_take_nth_drop)
  then have "distinct (map getPos (take i xs @ xs ! i # drop (Suc i) xs))" using assms(1) by simp
  then show ?thesis by auto
qed

lemma chain_distinct:
  assumes ci: "chain_inv s" and d: "distinct (map getPos (closed_list s))"
  shows "i < length (closed_list s) \<Longrightarrow> distinct (map getPos (chain (closed_list s ! i)))"
proof (induction i rule: less_induct)
  case (less i)
  let ?cl = "closed_list s" and ?n = "closed_list s ! i"
  show ?case
  proof (cases "parent ?n")
    case None
    then show ?thesis by (simp add: chain_None)
  next
    case (Some p)
    then obtain j where j: "j < i" "?cl ! j = p" using ci less.prems unfolding chain_inv_def by blast
    have jl: "j < length ?cl" using j(1) less.prems by simp
    from less.IH[OF j(1) jl] j(2) have ih: "distinct (map getPos (chain p))" by simp
    have ch: "chain ?n = ?n # chain p" using Some by (rule chain_Some)
    have "set (chain p) \<subseteq> set (take i ?cl)"
      using chain_closed[OF ci less.prems] ch by simp
    then have "getPos ` set (chain p) \<subseteq> getPos ` set (take i ?cl)" by (rule image_mono)
    then have "getPos ?n \<notin> getPos ` set (chain p)"
      using pos_not_in_take[OF d less.prems] by blast
    then show ?thesis using ch ih by simp
  qed
qed

lemma chain_inv_expanded:
  assumes ci: "chain_inv s" and cur: "cur \<in> set (open_list s)" and rest: "set rest \<subseteq> set (open_list s)"
    and ex: "expanded cur rest s s'"
  shows "chain_inv s'"
proof -
  from ex obtain olds news where e:
    "open_list s' = olds @ news" "closed_list s' = closed_list s @ [cur]"
    "START s' = START s"
    "list_all2 (\<lambda>a b. getPos a = getPos b \<and> (a = b \<or> parent a = Some cur)) olds rest"
    "\<forall>n \<in> set news. parent n = Some cur \<and>
         getPos n \<in> getPos ` set (getNeighbors (DIAGONAL s) cur) \<and>
         node_tile (GRID s) n \<noteq> Wall \<and>
         getPos n \<notin> getPos ` set (closed_list s @ cur # rest)"
    by (rule expandedE)
  have old: "\<And>n. n \<in> set (open_list s @ closed_list s) \<Longrightarrow>
        (case parent n of None \<Rightarrow> n = START s | Some p \<Rightarrow> p \<in> set (closed_list s))"
    using ci unfolding chain_inv_def by blast
  have P: "\<And>n. n \<in> set (open_list s @ closed_list s) \<Longrightarrow>
        (case parent n of None \<Rightarrow> n = START s' | Some p \<Rightarrow> p \<in> set (closed_list s'))"
  proof -
    fix n assume "n \<in> set (open_list s @ closed_list s)"
    from old[OF this] show "case parent n of None \<Rightarrow> n = START s' | Some p \<Rightarrow> p \<in> set (closed_list s')"
      unfolding e(2,3) by (cases "parent n") simp_all
  qed
  have Q: "\<And>n. parent n = Some cur \<Longrightarrow>
        (case parent n of None \<Rightarrow> n = START s' | Some p \<Rightarrow> p \<in> set (closed_list s'))"
    unfolding e(2) by simp
  have 1: "\<forall>n \<in> set (open_list s' @ closed_list s').
        case parent n of None \<Rightarrow> n = START s' | Some p \<Rightarrow> p \<in> set (closed_list s')"
  proof
    fix n assume "n \<in> set (open_list s' @ closed_list s')"
    then consider "n \<in> set olds" | "n \<in> set news" | "n \<in> set (closed_list s)" | "n = cur"
      unfolding e(1,2) by auto
    then show "case parent n of None \<Rightarrow> n = START s' | Some p \<Rightarrow> p \<in> set (closed_list s')"
    proof cases
      case 1
      then obtain k where k: "k < length olds" "olds ! k = n" by (auto simp: in_set_conv_nth)
      have kr: "k < length rest" using k(1) list_all2_lengthD[OF e(4)] by simp
      from list_all2_nthD[OF e(4) k(1)] k(2)
      have "n = rest ! k \<or> parent n = Some cur" by simp
      then show ?thesis
      proof
        assume "n = rest ! k"
        then have "n \<in> set (open_list s @ closed_list s)" using rest kr nth_mem by fastforce
        then show ?thesis by (rule P)
      next
        assume "parent n = Some cur" then show ?thesis by (rule Q)
      qed
    next
      case 2 then show ?thesis using e(5) Q by blast
    next
      case 3 then show ?thesis using P by simp
    next
      case 4
      have "cur \<in> set (open_list s @ closed_list s)" using cur by simp
      from P[OF this] show ?thesis unfolding 4 .
    qed
  qed
  have 2: "\<forall>i < length (closed_list s'). \<forall>p. parent (closed_list s' ! i) = Some p \<longrightarrow>
        (\<exists>j < i. closed_list s' ! j = p)"
  proof (intro allI impI)
    fix i p assume i: "i < length (closed_list s')" and p: "parent (closed_list s' ! i) = Some p"
    show "\<exists>j < i. closed_list s' ! j = p"
    proof (cases "i < length (closed_list s)")
      case True
      then have "parent (closed_list s ! i) = Some p" using p unfolding e(2) by (simp add: nth_append)
      then obtain j where j: "j < i" "closed_list s ! j = p" using ci True unfolding chain_inv_def by blast
      have "(closed_list s @ [cur]) ! j = p" using j True by (simp add: nth_append)
      then show ?thesis unfolding e(2) using j(1) by (intro exI[of _ j] conjI)
    next
      case False
      then have il: "i = length (closed_list s)" using i unfolding e(2) by simp
      then have "parent cur = Some p" using p unfolding e(2) by simp
      then have "p \<in> set (closed_list s)" using old[of cur] cur by simp
      then obtain j where j: "j < length (closed_list s)" "closed_list s ! j = p"
        unfolding in_set_conv_nth by blast
      have "(closed_list s @ [cur]) ! j = p" using j by (simp add: nth_append)
      then show ?thesis unfolding e(2) using j(1) il by (intro exI[of _ j] conjI) simp_all
    qed
  qed
  show ?thesis unfolding chain_inv_def using 1 2 by (intro conjI)
qed

lemma no_final_expanded:
  assumes wf: "wf_dims W H (GRID s)" and cur: "interior W H cur" and nf: "no_final W H s"
    and ex: "expanded cur rest s s'"
  shows "no_final W H s'"
  unfolding no_final_def
proof (intro allI impI)
  fix r c assume rc: "in_range W H r c"
  have "tile (GRID s) r c \<noteq> FinalPath" using nf rc by (simp add: no_final_def)
  then show "tile (GRID s') r c \<noteq> FinalPath"
    using expanded_tile[OF wf cur ex rc] by simp
qed

lemma run_inv_step:
  assumes "run_inv W H s"
  shows "\<exists>r s'. step alg s = Inr (r, s') \<and> run_inv W H s'"
proof (cases "open_list s = []")
  case True
  then show ?thesis using assms by (simp add: step_empty)
next
  case False
  have si: "search_inv W H s" and ci: "chain_inv s" and nf: "no_final W H s"
    and ne: "getPos (START s) \<noteq> getPos (END s)"
    using assms by (simp_all add: run_inv_def)
  have wf: "wf_dims W H (GRID s)" and oi: "\<forall>n \<in> set (open_list s). interior W H n"
    using si by (auto simp: search_inv_def geo_inv_def wf_grid_def)
  let ?cur = "removed alg (open_list s)" and ?rest = "remaining alg (open_list s)"
  from step_ok[OF wf oi False, of alg] obtain r s' where
    st: "step alg s = Inr (r, s')" "expanded ?cur ?rest s s'" by blast
  have 1: "search_inv W H s'"
    using search_inv_expanded[OF si removed_remaining[OF False] st(2)] .
  have 2: "chain_inv s'"
    using chain_inv_expanded[OF ci removed_in[OF False] remaining_subset[OF False] st(2)] .
  have 3: "no_final W H s'"
    using no_final_expanded[OF wf _ nf st(2)] oi removed_in[OF False, of alg] by blast
  from st(2) obtain olds news where "START s' = START s" "END s' = END s" by (rule expandedE)
  then have 4: "getPos (START s') \<noteq> getPos (END s')" using ne by simp
  show ?thesis using st(1) 1 2 3 4 by (auto simp: run_inv_def)
qed

lemma seeded_run_inv:
  assumes "seeded W H s" shows "run_inv W H s"
proof -
  have 1: "search_inv W H s" using assms by (rule seeded_search_inv)
  have 2: "chain_inv s" using assms by (simp add: seeded_def app_inv_def chain_inv_def)
  have 3: "no_final W H s" using assms by (simp add: seeded_def no_final_def)
  have 4: "getPos (START s) \<noteq> getPos (END s)" using assms by (simp add: seeded_def app_inv_def)
  show ?thesis using 1 2 3 4 by (simp add: run_inv_def)
qed

lemma run_inv_step_result:
  "run_inv W H s \<Longrightarrow> step alg s = Inr (r, s') \<Longrightarrow> run_inv W H s'"
  using run_inv_step[of W H s alg] by auto

lemma run_last_step:
  "run_inv W H s \<Longrightarrow> run alg n s = Inr (r, s') \<Longrightarrow> r \<noteq> Continuing \<Longrightarrow>
   \<exists>s1. run_inv W H s1 \<and> step alg s1 = Inr (r, s')"
proof (induction n arbitrary: s)
  case 0 then show ?case by simp
next
  case (Suc n)
  from run_inv_step[OF Suc.prems(1), of alg] obtain r1 s1 where
    1: "step alg s = Inr (r1, s1)" "run_inv W H s1" by blast
  show ?case
  proof (cases "r1 = Continuing")
    case True
    then have "run alg n s1 = Inr (r, s')" using Suc.prems(2) 1(1) by simp
    from Suc.IH[OF 1(2) this Suc.prems(3)] show ?thesis .
  next
    case False
    then have "r1 = r" "s1 = s'" using Suc.prems(2) 1(1) by simp_all
    then show ?thesis using 1(1) Suc.prems(1) by blast
  qed
qed

lemma parent_last_chain: "parent (last (chain n)) = None"
proof (induction n rule: chain.induct)
  case (1 n)
  show ?case
  proof (cases "parent n")
    case None then show ?thesis by (simp add: chain_None)
  next
    case (Some p)
    then show ?thesis using "1.IH"[OF Some] by (simp add: chain_Some)
  qed
qed

lemma pos_neq: "x \<in> set xs \<Longrightarrow> p \<notin> getPos ` set xs \<Longrightarrow> getPos x \<noteq> p"
  by auto

lemma butlast_not_last_pos:
  assumes "distinct (map getPos d)" "x \<in> set (butlast d)"
  shows "getPos x \<noteq> getPos (last d)"
proof -
  have ne: "d \<noteq> []" using assms(2) by auto
  then have "d = butlast d @ [last d]" by simp
  then have "distinct (map getPos (butlast d @ [last d]))" using assms(1) by simp
  then have "getPos (last d) \<notin> getPos ` set (butlast d)" by simp
  with assms(2) show ?thesis by (rule pos_neq)
qed

lemma reconstruct_after_success:
  assumes inv: "run_inv W H s1" and st: "step alg s1 = Inr (Success, s)"
  shows "\<exists>s'. reconstructPath s = Some (Inr s') \<and>
           closed_list s \<noteq> [] \<and>
           node_eq (last (closed_list s)) (END s) \<and>
           last (chain (last (closed_list s))) = START s \<and>
           node_tile (GRID s') (START s) = StartTile \<and> node_tile (GRID s') (END s) = EndTile \<and>
           (\<forall>r c. in_range W H r c \<longrightarrow>
              (tile (GRID s') r c = FinalPath \<longleftrightarrow>
               (r, c) \<in> getPos ` set (butlast (tl (chain (last (closed_list s)))))))"
proof -
  have ne1: "open_list s1 \<noteq> []" using st by (auto simp: step_empty)
  have si1: "search_inv W H s1" using inv by (simp add: run_inv_def)
  have wf1: "wf_dims W H (GRID s1)" and oi1: "\<forall>n \<in> set (open_list s1). interior W H n"
    using si1 by (auto simp: search_inv_def geo_inv_def wf_grid_def)
  let ?E = "removed alg (open_list s1)"
  from step_ok[OF wf1 oi1 ne1, of alg] st
  have ex: "expanded ?E (remaining alg (open_list s1)) s1 s" and eq: "node_eq ?E (END s1)" by auto
  from ex obtain olds news where e: "closed_list s = closed_list s1 @ [?E]" "END s = END s1"
    by (rule expandedE)
  have rinv: "run_inv W H s" using run_inv_step_result[OF inv st] .
  then have si: "search_inv W H s" and ci: "chain_inv s" and nf: "no_final W H s"
    and se: "getPos (START s) \<noteq> getPos (END s)" by (simp_all add: run_inv_def)
  have wf: "wf_dims W H (GRID s)" and cli: "\<forall>n \<in> set (closed_list s). interior W H n"
    and sti: "interior W H (START s)" and eni: "interior W H (END s)"
    and dcl: "distinct (map getPos (closed_list s))"
    using si by (auto simp: search_inv_def geo_inv_def wf_grid_def)
  let ?cl = "closed_list s"
  have ne: "?cl \<noteq> []" and lastE: "last ?cl = ?E" using e(1) by simp_all
  have eqE: "node_eq (last ?cl) (END s)" using eq lastE e(2) by simp
  let ?i = "length ?cl - 1"
  have il: "?i < length ?cl" using ne by simp
  have nth: "?cl ! ?i = last ?cl" using ne by (simp add: last_conv_nth)
  have tk: "take ?i ?cl = butlast ?cl" by (simp add: butlast_conv_take)
  from chain_closed[OF ci il] nth tk
  have sub: "set (tl (chain (last ?cl))) \<subseteq> set (butlast ?cl)"
    and root: "last (chain (last ?cl)) = START s" by simp_all
  from chain_distinct[OF ci dcl il] nth
  have dch: "distinct (map getPos (chain (last ?cl)))" by simp
  have chin: "set (chain (last ?cl)) \<subseteq> set ?cl"
    using sub chain_set[of "last ?cl"] ne in_set_butlastD by fastforce
  have chr: "\<forall>n \<in> set (chain (last ?cl)). node_in_range W H n"
    using chin cli interior_in_range by blast
  have dbl: "distinct (map getPos (butlast ?cl))"
    using distinct_butlast[OF dcl] by (simp add: map_butlast)
  note w = walk_chain[OF wf chr dbl sub]
  let ?g1 = "paint (butlast (chain (last ?cl))) (GRID s)"
  have wfp: "wf_dims W H ?g1" using wf by (rule wf_dims_paint)
  from mark_ends_ok[OF wfp sti eni] obtain g3 where
    g3: "mark_ends s ?g1 = Inr g3" "wf_dims W H g3"
    "\<forall>r c. in_range W H r c \<longrightarrow>
          tile g3 r c = (if (r, c) = getPos (END s) then EndTile
                         else if (r, c) = getPos (START s) then StartTile else tile ?g1 r c)"
    by blast
  let ?s' = "s\<lparr>closed_list := butlast ?cl, GRID := g3\<rparr>"
  have rp: "reconstructPath s = Some (Inr ?s')"
    using ne w g3(1) by (auto simp: reconstructPath_def Let_def mark_ends_def split: sum.splits)
  have rs: "in_range W H (node_y (START s)) (node_x (START s))"
    and re: "in_range W H (node_y (END s)) (node_x (END s))"
    using sti eni interior_in_range by (auto simp: node_in_range_def)
  have ts: "node_tile g3 (START s) = StartTile"
    using g3(3)[rule_format, OF rs] se by (simp add: node_tile_def getPos_def)
  have te: "node_tile g3 (END s) = EndTile"
    using g3(3)[rule_format, OF re] by (simp add: node_tile_def getPos_def)
  have posE: "getPos (last ?cl) = getPos (END s)" using eqE by (simp add: node_eq_getPos)
  have "last ?cl \<noteq> START s" using posE se by auto
  then have "parent (last ?cl) \<noteq> None"
  proof (rule contrapos_nn)
    assume "parent (last ?cl) = None"
    then have "chain (last ?cl) = [last ?cl]" by (rule chain_None)
    then show "last ?cl = START s" using root by simp
  qed
  then obtain p where p: "parent (last ?cl) = Some p" by blast
  have ch: "chain (last ?cl) = last ?cl # chain p" using p by (rule chain_Some)
  have bl: "butlast (chain (last ?cl)) = last ?cl # butlast (chain p)" using ch by simp
  have tl: "butlast (tl (chain (last ?cl))) = butlast (chain p)" using ch by simp
  have dp: "distinct (map getPos (chain p))" and Enp: "getPos (last ?cl) \<notin> getPos ` set (chain p)"
    using dch ch by simp_all
  have rootp: "last (chain p) = START s" using root ch by simp
  have fin: "\<forall>r c. in_range W H r c \<longrightarrow>
              (tile g3 r c = FinalPath \<longleftrightarrow> (r, c) \<in> getPos ` set (butlast (chain p)))"
  proof (intro allI impI)
    fix r c assume rc: "in_range W H r c"
    have br: "\<forall>n \<in> set (butlast (chain (last ?cl))). node_in_range W H n"
      using chr in_set_butlastD by fast
    have t1: "tile ?g1 r c = (if (r, c) \<in> getPos ` set (butlast (chain (last ?cl))) then FinalPath else tile (GRID s) r c)"
      using tile_paint[OF wf br rc] .
    have nf': "tile (GRID s) r c \<noteq> FinalPath" using nf rc by (simp add: no_final_def)
    show "tile g3 r c = FinalPath \<longleftrightarrow> (r, c) \<in> getPos ` set (butlast (chain p))"
    proof
      assume a: "tile g3 r c = FinalPath"
      then have 1: "(r, c) \<noteq> getPos (END s)" "(r, c) \<noteq> getPos (START s)" "tile ?g1 r c = FinalPath"
        using g3(3)[rule_format, OF rc] by (auto split: if_splits)
      then have "(r, c) \<in> getPos ` set (butlast (chain (last ?cl)))" using t1 nf' by (auto split: if_splits)
      then show "(r, c) \<in> getPos ` set (butlast (chain p))" using 1(1) posE unfolding bl by auto
    next
      assume a: "(r, c) \<in> getPos ` set (butlast (chain p))"
      then obtain x where x: "x \<in> set (butlast (chain p))" "(r, c) = getPos x" by auto
      have "getPos x \<noteq> getPos (START s)" using butlast_not_last_pos[OF dp x(1)] rootp by simp
      moreover have "x \<in> set (chain p)" using x(1) by (rule in_set_butlastD)
      then have "getPos x \<noteq> getPos (last ?cl)" using Enp by (rule pos_neq)
      moreover have "tile ?g1 r c = FinalPath" using t1 a unfolding bl by simp
      ultimately show "tile g3 r c = FinalPath"
        using g3(3)[rule_format, OF rc] x(2) posE by simp
    qed
  qed
  show ?thesis
    apply (rule exI[of _ ?s'])
    using rp ne eqE root ts te fin unfolding tl by simp
qed

lemma BFS_exact:
  assumes wf: "wf_dims W H (GRID s)" and oi: "\<forall>n \<in> set (open_list s). interior W H n"
    and ne: "open_list s \<noteq> []"
  shows "BFS s = (if node_eq (hd (open_list s)) (END s)
                  then Inr (Success, closed_state s (hd (open_list s)) (tl (open_list s)))
                  else Inr (Continuing, bfs_next s))"
proof -
  let ?cur = "hd (open_list s)" and ?rest = "tl (open_list s)"
  let ?s1 = "closed_state s ?cur ?rest" and ?ns = "getNeighbors (DIAGONAL s) ?cur"
  have ci: "interior W H ?cur" using oi ne by simp
  have cur: "inGrid W H (node_x ?cur) (node_y ?cur)" using ci by (simp add: interior_def)
  have wf1: "wf_dims W H (GRID ?s1)" using wf by (simp add: wf_dims_node_upd)
  have nr: "\<forall>n \<in> set ?ns. node_in_range W H n" using nbrs_in_range[OF cur] by blast
  note fe = for_each_admit[OF wf1 nr nbrs_distinct[of "DIAGONAL s" ?cur]]
  have c: "close_node s ?cur ?rest = Inr ?s1" using close_node_ok[OF wf interior_in_range[OF ci]] .
  show ?thesis
    using ne c fe by (simp add: BFS_def expand_def bfs_next_def bfs_news_def)
qed

lemma lev_Some: "parent n = Some p \<Longrightarrow> lev n = Suc (lev p)"
  by (simp add: lev_def chain_Some)

lemma lev_None: "parent n = None \<Longrightarrow> lev n = 1"
  by (simp add: lev_def chain_None)

lemma lev_pos [simp]: "0 < lev n"
  by (simp add: lev_def)

lemma orth_adj_sym: "orth_adj p q \<longleftrightarrow> orth_adj q p"
  by (auto simp: orth_adj_def)

lemma nbrs_orth:
  "m \<in> set (getNeighbors False n) \<Longrightarrow> orth_adj (getPos n) (getPos m)"
  by (auto simp: getNeighbors_def Let_def orth_adj_def getPos_def)

lemma orth_nbr:
  assumes "orth_adj (getPos n) q"
  shows "\<exists>m \<in> set (getNeighbors False n). getPos m = q"
proof -
  obtain r c where q: "q = (r, c)" by (cases q)
  have "\<bar>node_y n - r\<bar> + \<bar>node_x n - c\<bar> = 1" using assms q by (simp add: orth_adj_def getPos_def)
  then have "(r = node_y n - 1 \<and> c = node_x n) \<or> (r = node_y n \<and> c = node_x n + 1) \<or>
             (r = node_y n + 1 \<and> c = node_x n) \<or> (r = node_y n \<and> c = node_x n - 1)"
    by arith
  then show ?thesis unfolding q by (auto simp: getNeighbors_def Let_def getPos_def)
qed

lemma bfs_next_fields [simp]:
  "open_list (bfs_next s) = tl (open_list s) @ bfs_news s"
  "closed_list (bfs_next s) = closed_list s @ [hd (open_list s)]"
  "START (bfs_next s) = START s" "END (bfs_next s) = END s" "DIAGONAL (bfs_next s) = DIAGONAL s"
  by (simp_all add: bfs_next_def)

lemma bfs_news_facts:
  assumes "n \<in> set (bfs_news s)"
  shows "n \<in> set (getNeighbors (DIAGONAL s) (hd (open_list s)))"
    and "parent n = Some (hd (open_list s))"
    and "lev n = Suc (lev (hd (open_list s)))"
    and "fresh (closed_state s (hd (open_list s)) (tl (open_list s))) n"
proof -
  show 1: "n \<in> set (getNeighbors (DIAGONAL s) (hd (open_list s)))"
    and "fresh (closed_state s (hd (open_list s)) (tl (open_list s))) n"
    using assms by (simp_all add: bfs_news_def)
  show 2: "parent n = Some (hd (open_list s))" using nbrs_fields[OF 1] by simp
  show "lev n = Suc (lev (hd (open_list s)))" using lev_Some[OF 2] .
qed

lemma bfs_inv_runD: "bfs_inv W H g0 s \<Longrightarrow> run_inv W H s"
  by (simp add: bfs_inv_def)

lemma run_inv_facts:
  assumes "run_inv W H s"
  shows "wf_grid W H (GRID s)" "wf_dims W H (GRID s)"
    "\<And>n. n \<in> set (open_list s) \<Longrightarrow> interior W H n"
    "\<And>n. n \<in> set (closed_list s) \<Longrightarrow> interior W H n"
    "distinct (map getPos (open_list s @ closed_list s))"
    "\<And>n. n \<in> set (open_list s) \<Longrightarrow> node_tile (GRID s) n \<noteq> Wall"
    "\<And>n. n \<in> set (closed_list s) \<Longrightarrow> node_tile (GRID s) n \<noteq> Wall"
  using assms by (simp_all add: run_inv_def search_inv_def geo_inv_def wf_grid_def)

lemma BFS_Continuing:
  assumes ri: "run_inv W H s" and ne: "open_list s \<noteq> []"
    and nend: "\<not> node_eq (hd (open_list s)) (END s)"
  shows "step AlgBFS s = Inr (Continuing, bfs_next s)"
proof -
  have oi: "\<forall>n \<in> set (open_list s). interior W H n" using run_inv_facts(3)[OF ri] by blast
  show ?thesis using BFS_exact[OF run_inv_facts(2)[OF ri] oi ne] nend by simp
qed

lemma BFS_Success:
  assumes ri: "run_inv W H s" and ne: "open_list s \<noteq> []"
    and nend: "node_eq (hd (open_list s)) (END s)"
  shows "step AlgBFS s = Inr (Success, closed_state s (hd (open_list s)) (tl (open_list s)))"
proof -
  have oi: "\<forall>n \<in> set (open_list s). interior W H n" using run_inv_facts(3)[OF ri] by blast
  show ?thesis using BFS_exact[OF run_inv_facts(2)[OF ri] oi ne] nend by simp
qed

lemma bfs_next_walls:
  assumes ri: "run_inv W H s" and ne: "open_list s \<noteq> []" and rc: "in_range W H r c"
  shows "tile (GRID (bfs_next s)) r c = Wall \<longleftrightarrow> tile (GRID s) r c = Wall"
proof -
  let ?cur = "hd (open_list s)"
  let ?g1 = "node_upd (GRID s) ?cur Visited"
  have wf: "wf_dims W H (GRID s)" by (rule run_inv_facts(2)[OF ri])
  have cin: "?cur \<in> set (open_list s)" using ne by simp
  have ci: "interior W H ?cur" using run_inv_facts(3)[OF ri cin] .
  have cr: "node_in_range W H ?cur" using interior_in_range[OF ci] .
  have cw: "node_tile (GRID s) ?cur \<noteq> Wall" using run_inv_facts(6)[OF ri cin] .
  have wf1: "wf_dims W H ?g1" using wf by (rule wf_dims_node_upd)
  have Fr: "\<forall>n \<in> set (bfs_news s). node_in_range W H n"
  proof
    fix n assume "n \<in> set (bfs_news s)"
    then have "n \<in> set (getNeighbors (DIAGONAL s) ?cur)" by (rule bfs_news_facts(1))
    then show "node_in_range W H n" using nbrs_in_range ci unfolding interior_def by blast
  qed
  have g: "GRID (bfs_next s) = mark (bfs_news s) ?g1" by (simp add: bfs_next_def)
  have t1: "tile ?g1 r c = (if (r, c) = getPos ?cur then Visited else tile (GRID s) r c)"
    using tile_node_upd[OF wf cr rc] .
  have t2: "tile (GRID (bfs_next s)) r c =
      (if (r, c) \<in> getPos ` set (bfs_news s) then Frontier else tile ?g1 r c)"
    unfolding g using tile_mark[OF wf1 Fr rc] .
  have a: "(r, c) = getPos ?cur \<Longrightarrow> tile (GRID s) r c \<noteq> Wall"
    using cw by (auto simp: node_tile_def getPos_def)
  have b: "tile (GRID s) r c \<noteq> Wall" if "(r, c) \<in> getPos ` set (bfs_news s)"
  proof -
    from that obtain n where n: "n \<in> set (bfs_news s)" "getPos n = (r, c)" by auto
    have nr: "node_in_range W H n" using Fr n(1) by blast
    have f: "fresh (closed_state s ?cur (tl (open_list s))) n" using n(1) by (rule bfs_news_facts(4))
    then have "node_tile ?g1 n \<noteq> Wall" by (simp add: fresh_def closed_state_def)
    then have "getPos n \<noteq> getPos ?cur \<Longrightarrow> node_tile (GRID s) n \<noteq> Wall"
      using node_tile_upd[OF wf cr nr, of Visited] by simp
    then show ?thesis using n(2) a by (cases "getPos n = getPos ?cur") (auto simp: node_tile_def getPos_def)
  qed
  show ?thesis unfolding t2 t1 using a b by auto
qed

lemma sorted_const: "\<forall>x \<in> set xs. f x = (k::nat) \<Longrightarrow> sorted (map f xs)"
  by (induction xs) simp_all

lemma sorted_le_last:
  "sorted (map f xs) \<Longrightarrow> x \<in> set xs \<Longrightarrow> (f x :: nat) \<le> f (last xs)"
proof (induction xs)
  case Nil then show ?case by simp
next
  case (Cons a xs)
  show ?case
  proof (cases "xs = []")
    case True then show ?thesis using Cons.prems by simp
  next
    case False
    then have l: "last xs \<in> set xs" by simp
    show ?thesis
    proof (cases "x = a")
      case True
      then show ?thesis using Cons.prems(1) l False by simp
    next
      case ne: False
      then have "x \<in> set xs" using Cons.prems(2) by simp
      then show ?thesis using Cons.IH Cons.prems(1) False by simp
    qed
  qed
qed

lemma sorted_hd_le:
  "sorted (map f xs) \<Longrightarrow> x \<in> set xs \<Longrightarrow> (f (hd xs) :: nat) \<le> f x"
  by (cases xs) auto

lemma bfs_queue_sorted:
  assumes so: "sorted (map lev os)" and ne: "os \<noteq> []"
    and lh: "lev (last os) \<le> lev (hd os) + 1"
    and F: "\<forall>n \<in> set F. lev n = Suc (lev (hd os))"
  shows "sorted (map lev (tl os @ F))"
    and "tl os @ F \<noteq> [] \<Longrightarrow> lev (last (tl os @ F)) \<le> lev (hd (tl os @ F)) + 1"
proof -
  have r: "\<And>x. x \<in> set (tl os) \<Longrightarrow> lev (hd os) \<le> lev x \<and> lev x \<le> lev (hd os) + 1"
  proof -
    fix x assume "x \<in> set (tl os)"
    then have x: "x \<in> set os" using ne by (cases os) simp_all
    have "lev x \<le> lev (last os)" using sorted_le_last[OF so x] .
    then show "lev (hd os) \<le> lev x \<and> lev x \<le> lev (hd os) + 1"
      using lh sorted_hd_le[OF so x] by simp
  qed
  have st: "sorted (map lev (tl os))" using so ne by (cases os) simp_all
  have sf: "sorted (map lev F)" using sorted_const[of F lev] F by blast
  show "sorted (map lev (tl os @ F))"
    using st sf r F by (simp add: sorted_append)
  assume n: "tl os @ F \<noteq> []"
  have h: "lev (hd os) \<le> lev (hd (tl os @ F))"
  proof (cases "tl os = []")
    case True
    then have "hd (tl os @ F) \<in> set F" using n by simp
    then show ?thesis using F by simp
  next
    case False
    then have "hd (tl os @ F) \<in> set (tl os)" by simp
    then show ?thesis using r by blast
  qed
  have l: "lev (last (tl os @ F)) \<le> lev (hd os) + 1"
  proof (cases "F = []")
    case True
    then have "last (tl os @ F) \<in> set (tl os)" using n by simp
    then show ?thesis using r by blast
  next
    case False
    then have "last (tl os @ F) \<in> set F" by simp
    then show ?thesis using F by simp
  qed
  show "lev (last (tl os @ F)) \<le> lev (hd (tl os @ F)) + 1" using h l by simp
qed

lemma bfs_inv_discovered:
  "bfs_inv W H g0 s \<Longrightarrow> a \<in> set (closed_list s) \<Longrightarrow> orth_adj (getPos a) q \<Longrightarrow> passable W H g0 q \<Longrightarrow>
   \<exists>n \<in> set (open_list s @ closed_list s). getPos n = q \<and> lev n \<le> lev a + 1"
  unfolding bfs_inv_def by blast

lemma bfs_next_discovers:
  assumes inv: "bfs_inv W H g0 s" and ne: "open_list s \<noteq> []"
    and m: "m \<in> set (closed_list s @ [hd (open_list s)])"
    and adj: "orth_adj (getPos m) q" and pq: "passable W H g0 q"
  shows "\<exists>n \<in> set ((tl (open_list s) @ bfs_news s) @ (closed_list s @ [hd (open_list s)])).
            getPos n = q \<and> lev n \<le> lev m + 1"
proof -
  let ?cur = "hd (open_list s)" and ?rest = "tl (open_list s)"
  let ?s1 = "closed_state s ?cur ?rest"
  let ?new = "(?rest @ bfs_news s) @ (closed_list s @ [?cur])"
  have ri: "run_inv W H s" using inv by (simp add: bfs_inv_def)
  have nd: "\<not> DIAGONAL s" using inv by (simp add: bfs_inv_def)
  have walls: "\<And>r c. in_range W H r c \<Longrightarrow> (tile (GRID s) r c = Wall \<longleftrightarrow> tile g0 r c = Wall)"
    using inv by (simp add: bfs_inv_def)
  have so: "sorted (map lev (open_list s))" using inv by (simp add: bfs_inv_def)
  have lh: "lev (last (open_list s)) \<le> lev ?cur + 1" using inv ne by (simp add: bfs_inv_def)
  have co: "\<And>a b. a \<in> set (closed_list s) \<Longrightarrow> b \<in> set (open_list s) \<Longrightarrow> lev a \<le> lev b"
    using inv by (simp add: bfs_inv_def)
  have os: "set (open_list s) = insert ?cur (set ?rest)" using ne by (cases "open_list s") simp_all
  have sub: "set (open_list s @ closed_list s) \<subseteq> set ?new" using os by auto
  have cin: "?cur \<in> set (open_list s)" using ne by simp
  show ?thesis
  proof (cases "m \<in> set (closed_list s)")
    case True
    from bfs_inv_discovered[OF inv True adj pq] obtain n where
      n: "n \<in> set (open_list s @ closed_list s)" "getPos n = q \<and> lev n \<le> lev m + 1" by blast
    have "n \<in> set ?new" using n(1) sub by blast
    then show ?thesis using n(2) by blast
  next
    case False
    then have mc: "m = ?cur" using m by simp
    have wf: "wf_dims W H (GRID s)" by (rule run_inv_facts(2)[OF ri])
    have ci: "interior W H ?cur" using run_inv_facts(3)[OF ri cin] .
    have cr: "node_in_range W H ?cur" using interior_in_range[OF ci] .
    from orth_nbr[of ?cur q] adj mc obtain nb where
      nb: "nb \<in> set (getNeighbors False ?cur)" "getPos nb = q" by blast
    have nbr: "node_in_range W H nb" using nbrs_in_range nb(1) ci unfolding interior_def by blast
    have qr: "in_range W H (fst q) (snd q)" and qw: "tile g0 (fst q) (snd q) \<noteq> Wall"
      using pq by (simp_all add: passable_def)
    have nt: "node_tile (GRID s) nb = tile (GRID s) (fst q) (snd q)"
      using nb(2) by (auto simp: node_tile_def getPos_def)
    have nw: "node_tile (GRID s) nb \<noteq> Wall" unfolding nt using walls[OF qr] qw by simp
    have nw1: "node_tile (GRID ?s1) nb \<noteq> Wall"
      using node_tile_upd[OF wf cr nbr, of Visited] nw by (simp add: closed_state_def)
    show ?thesis
    proof (cases "fresh ?s1 nb")
      case True
      then have f: "nb \<in> set (bfs_news s)" using nb(1) nd by (simp add: bfs_news_def)
      have "lev nb = Suc (lev ?cur)" using f by (rule bfs_news_facts(3))
      then have "getPos nb = q \<and> lev nb \<le> lev m + 1" using nb(2) mc by simp
      moreover have "nb \<in> set ?new" using f by simp
      ultimately show ?thesis by blast
    next
      case nf: False
      then have "node_in nb (closed_list s @ [?cur]) \<or> node_in nb ?rest"
        using nw1 by (simp add: fresh_def closed_state_def)
      then have "getPos nb \<in> getPos ` set (closed_list s @ [?cur]) \<or> getPos nb \<in> getPos ` set ?rest"
        by (simp only: node_in_getPos)
      then have "q \<in> getPos ` (set (closed_list s @ [?cur]) \<union> set ?rest)"
        unfolding nb(2) by blast
      then obtain n where n0: "n \<in> set (closed_list s @ [?cur]) \<union> set ?rest" and nq: "q = getPos n"
        by (rule imageE)
      have n: "n \<in> set (closed_list s @ [?cur]) \<or> n \<in> set ?rest" "getPos n = q"
        using n0 nq by simp_all
      have nn: "n \<in> set ?new" using n(1) by auto
      have "lev n \<le> lev ?cur + 1"
      proof (cases "n \<in> set (open_list s)")
        case True
        have "lev n \<le> lev (last (open_list s))" using sorted_le_last[OF so True] .
        then show ?thesis using lh by simp
      next
        case False
        then have "n \<in> set (closed_list s)" using n(1) os by auto
        then have "lev n \<le> lev ?cur" using co cin by blast
        then show ?thesis by simp
      qed
      then have "getPos n = q \<and> lev n \<le> lev m + 1" using n(2) mc by simp
      then show ?thesis using nn by blast
    qed
  qed
qed

lemma bfs_inv_next:
  assumes inv: "bfs_inv W H g0 s" and ne: "open_list s \<noteq> []"
    and nend: "\<not> node_eq (hd (open_list s)) (END s)"
  shows "bfs_inv W H g0 (bfs_next s)"
proof -
  let ?cur = "hd (open_list s)" and ?rest = "tl (open_list s)"
  have ri: "run_inv W H s" using inv by (simp add: bfs_inv_def)
  have nd: "\<not> DIAGONAL s" using inv by (simp add: bfs_inv_def)
  have walls: "\<And>r c. in_range W H r c \<Longrightarrow> (tile (GRID s) r c = Wall \<longleftrightarrow> tile g0 r c = Wall)"
    using inv by (simp add: bfs_inv_def)
  have pa: "\<And>n p. n \<in> set (open_list s @ closed_list s) \<Longrightarrow> parent n = Some p \<Longrightarrow> orth_adj (getPos p) (getPos n)"
    using inv unfolding bfs_inv_def by blast
  have so: "sorted (map lev (open_list s))" using inv by (simp add: bfs_inv_def)
  have lh: "lev (last (open_list s)) \<le> lev ?cur + 1" using inv ne by (simp add: bfs_inv_def)
  have co: "\<And>a b. a \<in> set (closed_list s) \<Longrightarrow> b \<in> set (open_list s) \<Longrightarrow> lev a \<le> lev b"
    using inv by (simp add: bfs_inv_def)
  have st: "START s \<in> set (open_list s @ closed_list s)" using inv by (simp add: bfs_inv_def)
  have ce: "\<And>a. a \<in> set (closed_list s) \<Longrightarrow> \<not> node_eq a (END s)" using inv by (simp add: bfs_inv_def)
  have os: "set (open_list s) = insert ?cur (set ?rest)" using ne by (cases "open_list s") simp_all
  have cin: "?cur \<in> set (open_list s)" using ne by simp
  have F: "\<forall>n \<in> set (bfs_news s). lev n = Suc (lev ?cur)" using bfs_news_facts(3) by blast
  have 1: "run_inv W H (bfs_next s)"
    using run_inv_step_result[OF ri BFS_Continuing[OF ri ne nend]] .
  have 2: "\<not> DIAGONAL (bfs_next s)" using nd by simp
  have 3: "\<forall>r c. in_range W H r c \<longrightarrow> (tile (GRID (bfs_next s)) r c = Wall \<longleftrightarrow> tile g0 r c = Wall)"
    using bfs_next_walls[OF ri ne] walls by simp
  have 4: "\<forall>n \<in> set (open_list (bfs_next s) @ closed_list (bfs_next s)).
             \<forall>p. parent n = Some p \<longrightarrow> orth_adj (getPos p) (getPos n)"
  proof (intro ballI allI impI)
    fix n p assume n: "n \<in> set (open_list (bfs_next s) @ closed_list (bfs_next s))" and p: "parent n = Some p"
    show "orth_adj (getPos p) (getPos n)"
    proof (cases "n \<in> set (bfs_news s)")
      case True
      have "p = ?cur" using bfs_news_facts(2)[OF True] p by simp
      moreover have "n \<in> set (getNeighbors False ?cur)" using bfs_news_facts(1)[OF True] nd by simp
      ultimately show ?thesis using nbrs_orth by blast
    next
      case False
      then have "n \<in> set (open_list s @ closed_list s)" using n os by auto
      then show ?thesis using pa p by blast
    qed
  qed
  have 5: "sorted (map lev (open_list (bfs_next s)))"
    using bfs_queue_sorted(1)[OF so ne lh F] by simp
  have 6: "open_list (bfs_next s) \<noteq> [] \<longrightarrow>
           lev (last (open_list (bfs_next s))) \<le> lev (hd (open_list (bfs_next s))) + 1"
    using bfs_queue_sorted(2)[OF so ne lh F] by simp
  have 7: "\<forall>a \<in> set (closed_list (bfs_next s)). \<forall>b \<in> set (open_list (bfs_next s)). lev a \<le> lev b"
  proof (intro ballI)
    fix a b assume a: "a \<in> set (closed_list (bfs_next s))" and b: "b \<in> set (open_list (bfs_next s))"
    have ac: "lev a \<le> lev ?cur" using a co cin by auto
    show "lev a \<le> lev b"
    proof (cases "b \<in> set (bfs_news s)")
      case True
      then show ?thesis using F ac by simp
    next
      case False
      then have br: "b \<in> set (open_list s)" using b os by auto
      have "lev ?cur \<le> lev b" using sorted_hd_le[OF so br] .
      then show ?thesis using ac by simp
    qed
  qed
  have 8: "\<forall>m \<in> set (closed_list (bfs_next s)). \<forall>q. orth_adj (getPos m) q \<and> passable W H g0 q \<longrightarrow>
          (\<exists>n \<in> set (open_list (bfs_next s) @ closed_list (bfs_next s)). getPos n = q \<and> lev n \<le> lev m + 1)"
  proof (intro ballI allI impI)
    fix m q assume m: "m \<in> set (closed_list (bfs_next s))" and q: "orth_adj (getPos m) q \<and> passable W H g0 q"
    have m': "m \<in> set (closed_list s @ [?cur])" using m by simp
    show "\<exists>n \<in> set (open_list (bfs_next s) @ closed_list (bfs_next s)). getPos n = q \<and> lev n \<le> lev m + 1"
      using bfs_next_discovers[OF inv ne m' conjunct1[OF q] conjunct2[OF q]]
      by (simp only: bfs_next_fields)
  qed
  have 9: "START (bfs_next s) \<in> set (open_list (bfs_next s) @ closed_list (bfs_next s))"
    using st os by auto
  have 10: "\<forall>m \<in> set (closed_list (bfs_next s)). \<not> node_eq m (END (bfs_next s))"
    using ce nend by auto
  have 11: "parent (START (bfs_next s)) = None" using inv by (simp add: bfs_inv_def)
  show ?thesis unfolding bfs_inv_def
    by (intro conjI 1 2 3 4 5 6 7 8 9 10 11)
qed

lemma seeded_bfs_inv:
  assumes sd: "seeded W H s" and nd: "\<not> DIAGONAL s"
  shows "bfs_inv W H (GRID s) s"
proof -
  have o: "open_list s = [START s]" and c: "closed_list s = []" and p: "parent (START s) = None"
    using sd by (simp_all add: seeded_def app_inv_def)
  show ?thesis unfolding bfs_inv_def
    using seeded_run_inv[OF sd] nd p by (simp add: o c)
qed

lemma bfs_run_last_step:
  "bfs_inv W H g0 s \<Longrightarrow> run AlgBFS n s = Inr (r, s') \<Longrightarrow> r \<noteq> Continuing \<Longrightarrow>
   \<exists>s1. bfs_inv W H g0 s1 \<and> START s1 = START s \<and> END s1 = END s \<and> step AlgBFS s1 = Inr (r, s')"
proof (induction n arbitrary: s)
  case 0 then show ?case by simp
next
  case (Suc n)
  have ri: "run_inv W H s" using Suc.prems(1) by (rule bfs_inv_runD)
  show ?case
  proof (cases "open_list s \<noteq> [] \<and> \<not> node_eq (hd (open_list s)) (END s)")
    case True
    then have ne: "open_list s \<noteq> []" and nend: "\<not> node_eq (hd (open_list s)) (END s)" by simp_all
    have st: "step AlgBFS s = Inr (Continuing, bfs_next s)" using BFS_Continuing[OF ri ne nend] .
    have r: "run AlgBFS n (bfs_next s) = Inr (r, s')" using Suc.prems(2) st by simp
    show ?thesis using Suc.IH[OF bfs_inv_next[OF Suc.prems(1) ne nend] r Suc.prems(3)] by simp
  next
    case False
    have "step AlgBFS s = Inr (r, s')"
    proof (cases "open_list s = []")
      case True
      then have "step AlgBFS s = Inr (Failure, s)" by (rule step_empty)
      then show ?thesis using Suc.prems(2) by simp
    next
      case ne: False
      then have "node_eq (hd (open_list s)) (END s)" using False by simp
      then show ?thesis using BFS_Success[OF ri ne] Suc.prems(2) by simp
    qed
    then show ?thesis using Suc.prems(1) by blast
  qed
qed

lemma route_snoc:
  assumes "route W H g (ps @ [p])" "ps \<noteq> []"
  shows "route W H g ps" "orth_adj (last ps) p" "passable W H g p"
  using assms by (simp_all add: route_def successively_append_iff)

lemma route_discovered:
  assumes inv: "bfs_inv W H g0 s"
  shows "route W H g0 ps \<Longrightarrow> hd ps = getPos (START s) \<Longrightarrow>
     (\<exists>n \<in> set (open_list s). lev n \<le> length ps) \<or>
     (\<exists>n \<in> set (closed_list s). getPos n = last ps \<and> lev n \<le> length ps)"
proof (induction ps rule: rev_induct)
  case Nil then show ?case by (simp add: route_def)
next
  case (snoc p ps)
  show ?case
  proof (cases "ps = []")
    case True
    have p: "p = getPos (START s)" using snoc.prems(2) True by simp
    have st: "START s \<in> set (open_list s @ closed_list s)" and l: "lev (START s) = 1"
      using inv by (simp_all add: bfs_inv_def lev_None)
    show ?thesis
    proof (cases "START s \<in> set (open_list s)")
      case True
      then have "\<exists>n \<in> set (open_list s). lev n \<le> length (ps @ [p])" using l by (intro bexI[of _ "START s"]) simp_all
      then show ?thesis by (rule disjI1)
    next
      case False
      then have "START s \<in> set (closed_list s)" using st by simp
      then have "\<exists>n \<in> set (closed_list s). getPos n = last (ps @ [p]) \<and> lev n \<le> length (ps @ [p])"
        using l p by (intro bexI[of _ "START s"]) simp_all
      then show ?thesis by (rule disjI2)
    qed
  next
    case False
    note r = route_snoc[OF snoc.prems(1) False]
    have h: "hd ps = getPos (START s)" using snoc.prems(2) False by simp
    from snoc.IH[OF r(1) h] show ?thesis
    proof
      assume "\<exists>n \<in> set (open_list s). lev n \<le> length ps"
      then obtain n where "n \<in> set (open_list s)" "lev n \<le> length ps" by blast
      then have "\<exists>n \<in> set (open_list s). lev n \<le> length (ps @ [p])" by (intro bexI[of _ n]) simp_all
      then show ?thesis by (rule disjI1)
    next
      assume "\<exists>n \<in> set (closed_list s). getPos n = last ps \<and> lev n \<le> length ps"
      then obtain m where m: "m \<in> set (closed_list s)" "getPos m = last ps" "lev m \<le> length ps" by blast
      have adj: "orth_adj (getPos m) p" using r(2) m(2) by simp
      from bfs_inv_discovered[OF inv m(1) adj r(3)] obtain n where
        n: "n \<in> set (open_list s @ closed_list s)" "getPos n = p" "lev n \<le> lev m + 1" by blast
      have ln: "lev n \<le> length (ps @ [p])" using n(3) m(3) by simp
      show ?thesis
      proof (cases "n \<in> set (open_list s)")
        case True
        then have "\<exists>n \<in> set (open_list s). lev n \<le> length (ps @ [p])" using ln by (intro bexI[of _ n])
        then show ?thesis by (rule disjI1)
      next
        case False
        then have "n \<in> set (closed_list s)" using n(1) by simp
        then have "\<exists>n \<in> set (closed_list s). getPos n = last (ps @ [p]) \<and> lev n \<le> length (ps @ [p])"
          using ln n(2) by (intro bexI[of _ n]) simp_all
        then show ?thesis by (rule disjI2)
      qed
    qed
  qed
qed

lemma chain_successively:
  "(\<And>n p. n \<in> set (chain e) \<Longrightarrow> parent n = Some p \<Longrightarrow> orth_adj (getPos p) (getPos n)) \<Longrightarrow>
   successively (\<lambda>a b. orth_adj b a) (map getPos (chain e))"
proof (induction e rule: chain.induct)
  case (1 n)
  show ?case
  proof (cases "parent n")
    case None
    then show ?thesis by (simp add: chain_None)
  next
    case (Some p)
    have c: "chain n = n # chain p" using Some by (rule chain_Some)
    have ih: "successively (\<lambda>a b. orth_adj b a) (map getPos (chain p))"
    proof (rule "1.IH"[OF Some])
      fix m q assume "m \<in> set (chain p)" "parent m = Some q"
      then show "orth_adj (getPos q) (getPos m)" using "1.prems"[of m q] c by simp
    qed
    have a: "orth_adj (getPos p) (getPos n)" using "1.prems"[of n p] Some c by simp
    obtain ys where ys: "chain p = p # ys" using chain_ne[of p] hd_chain[of p] by (cases "chain p") auto
    show ?thesis using ih a unfolding c ys by simp
  qed
qed

lemma bfs_success:
  assumes inv: "bfs_inv W H g0 s" and st: "step AlgBFS s = Inr (Success, s')"
    and rt: "route W H g0 ps" and hp: "hd ps = getPos (START s)" and lp: "last ps = getPos (END s)"
  shows "closed_list s' \<noteq> []"
    and "node_eq (last (closed_list s')) (END s)"
    and "last (chain (last (closed_list s'))) = START s"
    and "route W H g0 (rev (map getPos (chain (last (closed_list s')))))"
    and "hd (rev (map getPos (chain (last (closed_list s'))))) = getPos (START s)"
    and "last (rev (map getPos (chain (last (closed_list s'))))) = getPos (END s)"
    and "length (chain (last (closed_list s'))) \<le> length ps"
proof -
  let ?cur = "hd (open_list s)" and ?rest = "tl (open_list s)"
  have ri: "run_inv W H s" using inv by (rule bfs_inv_runD)
  have ne: "open_list s \<noteq> []"
  proof
    assume "open_list s = []"
    then have "step AlgBFS s = Inr (Failure, s)" by (rule step_empty)
    then show False using st by simp
  qed
  have ce: "node_eq ?cur (END s)"
  proof (rule ccontr)
    assume "\<not> node_eq ?cur (END s)"
    then show False using BFS_Continuing[OF ri ne] st by simp
  qed
  have s': "s' = closed_state s ?cur ?rest" using BFS_Success[OF ri ne ce] st by simp
  have cl: "closed_list s' = closed_list s @ [?cur]" unfolding s' by (simp add: closed_state_def)
  have e: "last (closed_list s') = ?cur" unfolding cl by simp
  have S: "START s' = START s" unfolding s' by (simp add: closed_state_def)
  show "closed_list s' \<noteq> []" unfolding cl by simp
  show "node_eq (last (closed_list s')) (END s)" unfolding e by (rule ce)
  have ri': "run_inv W H s'" using run_inv_step_result[OF ri st] .
  have ci': "chain_inv s'" using ri' by (simp add: run_inv_def)
  have i: "length (closed_list s) < length (closed_list s')" unfolding cl by simp
  have nth: "closed_list s' ! length (closed_list s) = ?cur" unfolding cl by simp
  have tk: "take (length (closed_list s)) (closed_list s') = closed_list s" unfolding cl by simp
  from chain_closed[OF ci' i] have
    sub: "set (tl (chain ?cur)) \<subseteq> set (closed_list s)" and la: "last (chain ?cur) = START s"
    unfolding nth tk S by simp_all
  show "last (chain (last (closed_list s'))) = START s" unfolding e by (rule la)
  have cin: "?cur \<in> set (open_list s)" using ne by simp
  have all: "set (chain ?cur) \<subseteq> set (open_list s @ closed_list s)"
    using chain_set[of ?cur] sub cin by auto
  have walls: "\<And>r c. in_range W H r c \<Longrightarrow> (tile (GRID s) r c = Wall \<longleftrightarrow> tile g0 r c = Wall)"
    using inv by (simp add: bfs_inv_def)
  have pa: "\<And>n p. n \<in> set (open_list s @ closed_list s) \<Longrightarrow> parent n = Some p \<Longrightarrow> orth_adj (getPos p) (getPos n)"
    using inv unfolding bfs_inv_def by blast
  have pass: "passable W H g0 (getPos n)" if "n \<in> set (open_list s @ closed_list s)" for n
  proof -
    have "interior W H n" using that run_inv_facts(3,4)[OF ri] by auto
    then have r: "in_range W H (node_y n) (node_x n)"
      using interior_in_range by (simp add: node_in_range_def)
    have "node_tile (GRID s) n \<noteq> Wall" using that run_inv_facts(6,7)[OF ri] by auto
    then have "tile g0 (node_y n) (node_x n) \<noteq> Wall" using walls[OF r] by (simp add: node_tile_def)
    then show ?thesis using r by (simp add: passable_def getPos_def)
  qed
  have p1: "list_all (passable W H g0) (rev (map getPos (chain ?cur)))"
    using all pass by (auto simp: list_all_iff)
  have "successively (\<lambda>a b. orth_adj b a) (map getPos (chain ?cur))"
  proof (rule chain_successively)
    fix n p assume "n \<in> set (chain ?cur)" "parent n = Some p"
    then show "orth_adj (getPos p) (getPos n)" using all pa by blast
  qed
  then have p2: "successively orth_adj (rev (map getPos (chain ?cur)))"
    by (simp add: successively_rev)
  show "route W H g0 (rev (map getPos (chain (last (closed_list s')))))"
    unfolding e route_def using p1 p2 by simp
  show "hd (rev (map getPos (chain (last (closed_list s'))))) = getPos (START s)"
    unfolding e using la by (simp add: hd_rev last_map)
  have "getPos ?cur = getPos (END s)" using ce by (simp add: node_eq_getPos)
  then show "last (rev (map getPos (chain (last (closed_list s'))))) = getPos (END s)"
    unfolding e by (simp add: last_rev hd_map)
  have "lev ?cur \<le> length ps"
    using route_discovered[OF inv rt hp]
  proof
    assume "\<exists>n \<in> set (open_list s). lev n \<le> length ps"
    then obtain n where n: "n \<in> set (open_list s)" "lev n \<le> length ps" by blast
    have so: "sorted (map lev (open_list s))" using inv by (simp add: bfs_inv_def)
    show ?thesis using sorted_hd_le[OF so n(1)] n(2) by simp
  next
    assume "\<exists>n \<in> set (closed_list s). getPos n = last ps \<and> lev n \<le> length ps"
    then obtain n where n: "n \<in> set (closed_list s)" "getPos n = last ps" by blast
    have "node_eq n (END s)" using n(2) lp by (simp add: node_eq_getPos)
    moreover have "\<not> node_eq n (END s)" using inv n(1) by (simp add: bfs_inv_def)
    ultimately show ?thesis by simp
  qed
  then show "length (chain (last (closed_list s'))) \<le> length ps" unfolding e lev_def .
qed

lemma bfs_not_failure:
  assumes inv: "bfs_inv W H g0 s" and st: "step AlgBFS s = Inr (r, s')"
    and rt: "route W H g0 ps" and hp: "hd ps = getPos (START s)" and lp: "last ps = getPos (END s)"
  shows "r \<noteq> Failure"
proof (cases "open_list s = []")
  case True
  from route_discovered[OF inv rt hp] True obtain n where
    n: "n \<in> set (closed_list s)" "getPos n = last ps" by auto
  have "node_eq n (END s)" using n(2) lp by (simp add: node_eq_getPos)
  moreover have "\<not> node_eq n (END s)" using inv n(1) by (simp add: bfs_inv_def)
  ultimately show ?thesis by simp
next
  case False
  have ri: "run_inv W H s" using inv by (rule bfs_inv_runD)
  have oi: "\<forall>n \<in> set (open_list s). interior W H n" using run_inv_facts(3)[OF ri] by blast
  from step_ok[OF run_inv_facts(2)[OF ri] oi False, of AlgBFS] st show ?thesis by auto
qed

section \<open>Node identity\<close>

text \<open>
  C9: two nodes are equal exactly when their row and column coordinates are equal; the
  parent and the cost fields play no part.
\<close>

theorem node_eq_coordinates_only:
  "node_eq a b = (node_y a = node_y b \<and> node_x a = node_x b) \<and>
   node_eq (Node ya xa pa ga ha) (Node yb xb pb gb hb) = node_eq (Node ya xa pa' ga' ha') (Node yb xb pb' gb' hb')"
  by (simp add: node_eq_def)

section \<open>Stepping after a failure\<close>

text \<open>
  C8, as stated: a step taken after a step that returned \<open>Failure\<close> raises an error.
  The code has no such error: on the walled-in start tile the second step of \<open>DFS\<close>
  returns \<open>Failure\<close>, and the step after it returns \<open>Failure\<close> again.
\<close>

theorem step_after_failure_counterexample:
  "run AlgDFS 2 blocked_run = Inr (Failure, blocked_done) \<and>
   step AlgDFS blocked_done = Inr (Failure, blocked_done)"
  by code_simp

text \<open>
  C8, amended: for every strategy, a step that returns \<open>Failure\<close> leaves the state as it
  was, and the next step returns \<open>Failure\<close> again with the same state; no error is raised.
\<close>

theorem step_after_failure:
  "step alg s = Inr (Failure, s') \<Longrightarrow> s' = s \<and> step alg s' = Inr (Failure, s')"
  by (auto simp: step_unfold expand_def split: if_splits sum.splits)

theorem step_after_failure_witness:
  "step AlgAStar blocked_done = Inr (Failure, blocked_done) \<and>
   blocked_done = blocked_done \<and> step AlgAStar blocked_done = Inr (Failure, blocked_done)"
proof -
  have h: "step AlgAStar blocked_done = Inr (Failure, blocked_done)" by code_simp
  show ?thesis using h step_after_failure[OF h] by simp
qed

section \<open>No coordinate is visited twice\<close>

text \<open>
  C5: for each of the four strategies, after any number of steps of a run that has just
  been seeded, no two nodes of \<open>closed\<close> have the same coordinates (and none of the steps
  raises).
\<close>

theorem visited_coordinates_distinct:
  "seeded W H s \<Longrightarrow> \<exists>s'. steps alg n s = Inr s' \<and> distinct (map getPos (closed_list s'))"
proof -
  assume "seeded W H s"
  then have "search_inv W H s" by (rule seeded_search_inv)
  from search_inv_steps[OF this, of alg n] show ?thesis by (auto simp: search_inv_def)
qed

theorem visited_coordinates_distinct_witness:
  "seeded 5 5 open_run \<and> (\<exists>s'. steps AlgDFS 4 open_run = Inr s' \<and> distinct (map getPos (closed_list s')))"
  using seeded_open_run visited_coordinates_distinct[OF seeded_open_run, of AlgDFS 4] by simp

section \<open>Termination within the size of the grid\<close>

text \<open>
  C6: for each of the four strategies and every \<open>W\<close> x \<open>H\<close> grid, the run that has just been
  seeded returns \<open>Success\<close> or \<open>Failure\<close> within \<open>W * H\<close> calls of the step function.
\<close>

theorem run_reaches_terminal_result:
  "seeded W H s \<Longrightarrow> \<exists>r s'. run alg (nat (W * H)) s = Inr (r, s') \<and> r \<noteq> Continuing"
proof -
  assume "seeded W H s"
  then have "search_inv W H s" by (rule seeded_search_inv)
  from run_terminates[OF this, of alg] show ?thesis by blast
qed

theorem run_reaches_terminal_result_witness:
  "seeded 5 5 blocked_run \<and> (\<exists>r s'. run AlgGreedy (nat (5 * 5)) blocked_run = Inr (r, s') \<and> r \<noteq> Continuing)"
  using seeded_blocked_run run_reaches_terminal_result[OF seeded_blocked_run, of AlgGreedy] by simp

section \<open>Which node Greedy and A* remove\<close>



section \<open>What a step writes to the grid\<close>

text \<open>
  C1, as stated: the end tile keeps its classification when the end node is admitted, and
  no step overwrites the start or the end tile. The four step functions have no such
  exception: after one step of \<open>DFS\<close> on a grid whose end tile is next to the start tile,
  the start tile holds \<open>Visited\<close> and the end tile holds \<open>Frontier\<close>.
\<close>

theorem step_overwrites_start_and_end_counterexample:
  "DFS adjacent_run = Inr (Continuing, adjacent_after) \<and>
   grid_get (GRID adjacent_run) (node_y (START adjacent_run)) (node_x (START adjacent_run)) = Inr StartTile \<and>
   grid_get (GRID adjacent_run) (node_y (END adjacent_run)) (node_x (END adjacent_run)) = Inr EndTile \<and>
   grid_get (GRID adjacent_after) (node_y (START adjacent_run)) (node_x (START adjacent_run)) = Inr Visited \<and>
   grid_get (GRID adjacent_after) (node_y (END adjacent_run)) (node_x (END adjacent_run)) = Inr Frontier"
  by code_simp

text \<open>
  C1, amended: on every step that expands a node, the removed node's tile is \<open>Visited\<close>
  afterwards, the tile of every newly admitted node (a frontier node whose coordinates
  were not in the frontier before) is \<open>Frontier\<close> afterwards, whether or not these are the
  start or the end tile, and every other tile is left as it was; so no step writes
  \<open>FinalPath\<close>.
\<close>

theorem step_marks_tiles:
  assumes inv: "geo_inv W H s" and ne: "open_list s \<noteq> []" and st: "step alg s = Inr (res, s')"
  shows "\<exists>cur \<in> set (open_list s).
           closed_list s' = closed_list s @ [cur] \<and>
           node_tile (GRID s') cur = Visited \<and>
           (\<forall>n \<in> set (open_list s'). getPos n \<notin> getPos ` set (open_list s) \<longrightarrow>
                node_tile (GRID s') n = Frontier) \<and>
           (\<forall>r c. in_range W H r c \<and> (r, c) \<noteq> getPos cur \<and>
                  (r, c) \<notin> getPos ` {n \<in> set (open_list s'). getPos n \<notin> getPos ` set (open_list s)} \<longrightarrow>
                tile (GRID s') r c = tile (GRID s) r c)"
proof -
  let ?cur = "removed alg (open_list s)" and ?rest = "remaining alg (open_list s)"
  have wf: "wf_dims W H (GRID s)" and oi: "\<forall>n \<in> set (open_list s). interior W H n"
    using inv by (auto simp: geo_inv_def wf_grid_def)
  have ci: "interior W H ?cur" using oi removed_in[OF ne] by blast
  from step_ok[OF wf oi ne, of alg] st have ex: "expanded ?cur ?rest s s'" by auto
  note m = removed_remaining[OF ne, of alg]
  note news = expanded_news[OF ex m]
  note t = expanded_tile[OF wf ci ex]
  have g': "geo_inv W H s'"
    using geo_inv_expanded[OF inv removed_in[OF ne] remaining_subset[OF ne] ex] .
  have cl: "closed_list s' = closed_list s @ [?cur]" using step_closed[OF st ne] .
  have v: "node_tile (GRID s') ?cur = Visited"
    using t[of "node_y ?cur" "node_x ?cur"] interior_in_range[OF ci] news(2)
    by (simp add: node_tile_def node_in_range_def getPos_def)
  have f: "\<forall>n \<in> set (open_list s'). getPos n \<notin> getPos ` set (open_list s) \<longrightarrow>
                node_tile (GRID s') n = Frontier"
  proof (intro ballI impI)
    fix n assume n: "n \<in> set (open_list s')" "getPos n \<notin> getPos ` set (open_list s)"
    then have "n \<in> set (drop (length ?rest) (open_list s'))" using news(1) by blast
    then have "getPos n \<in> getPos ` set (drop (length ?rest) (open_list s'))"
      by (rule imageI)
    then have "(node_y n, node_x n) \<in> getPos ` set (drop (length ?rest) (open_list s'))"
      by (simp only: getPos_def)
    moreover have "in_range W H (node_y n) (node_x n)"
      using g' n(1) interior_in_range by (auto simp: geo_inv_def node_in_range_def)
    ultimately show "node_tile (GRID s') n = Frontier"
      using t[of "node_y n" "node_x n"] by (simp add: node_tile_def)
  qed
  have u: "\<forall>r c. in_range W H r c \<and> (r, c) \<noteq> getPos ?cur \<and>
                  (r, c) \<notin> getPos ` {n \<in> set (open_list s'). getPos n \<notin> getPos ` set (open_list s)} \<longrightarrow>
                tile (GRID s') r c = tile (GRID s) r c"
  proof (intro allI impI)
    fix r c
    assume a: "in_range W H r c \<and> (r, c) \<noteq> getPos ?cur \<and>
                  (r, c) \<notin> getPos ` {n \<in> set (open_list s'). getPos n \<notin> getPos ` set (open_list s)}"
    then have 1: "in_range W H r c" and 2: "(r, c) \<noteq> getPos ?cur"
      and 3: "(r, c) \<notin> getPos ` {n \<in> set (open_list s'). getPos n \<notin> getPos ` set (open_list s)}"
      by blast+
    have 4: "(r, c) \<notin> getPos ` set (drop (length ?rest) (open_list s'))"
      using 3 unfolding news(1) .
    show "tile (GRID s') r c = tile (GRID s) r c" using t[OF 1] 2 4 by simp
  qed
  show ?thesis
  proof (rule bexI[of _ ?cur])
    show "?cur \<in> set (open_list s)" by (rule removed_in[OF ne])
    show "closed_list s' = closed_list s @ [?cur] \<and>
           node_tile (GRID s') ?cur = Visited \<and>
           (\<forall>n \<in> set (open_list s'). getPos n \<notin> getPos ` set (open_list s) \<longrightarrow>
                node_tile (GRID s') n = Frontier) \<and>
           (\<forall>r c. in_range W H r c \<and> (r, c) \<noteq> getPos ?cur \<and>
                  (r, c) \<notin> getPos ` {n \<in> set (open_list s'). getPos n \<notin> getPos ` set (open_list s)} \<longrightarrow>
                tile (GRID s') r c = tile (GRID s) r c)"
      using cl v f u by (intro conjI)
  qed
qed

theorem step_marks_tiles_witness:
  "geo_inv 5 5 adjacent_run \<and> open_list adjacent_run \<noteq> [] \<and>
   step AlgDFS adjacent_run = Inr (Continuing, adjacent_after) \<and>
   (\<exists>cur \<in> set (open_list adjacent_run).
           closed_list adjacent_after = closed_list adjacent_run @ [cur] \<and>
           node_tile (GRID adjacent_after) cur = Visited \<and>
           (\<forall>n \<in> set (open_list adjacent_after). getPos n \<notin> getPos ` set (open_list adjacent_run) \<longrightarrow>
                node_tile (GRID adjacent_after) n = Frontier) \<and>
           (\<forall>r c. in_range 5 5 r c \<and> (r, c) \<noteq> getPos cur \<and>
                  (r, c) \<notin> getPos ` {n \<in> set (open_list adjacent_after). getPos n \<notin> getPos ` set (open_list adjacent_run)} \<longrightarrow>
                tile (GRID adjacent_after) r c = tile (GRID adjacent_run) r c))"
proof -
  have h1: "geo_inv 5 5 adjacent_run"
    using seeded_search_inv[OF seeded_adjacent_run] by (simp add: search_inv_def)
  have h2: "open_list adjacent_run \<noteq> []" by (simp add: adjacent_run_def)
  have h3: "step AlgDFS adjacent_run = Inr (Continuing, adjacent_after)" by code_simp
  show ?thesis using h1 h2 h3 step_marks_tiles[OF h1 h2 h3] by (intro conjI)
qed

section \<open>Cost relaxation in A*\<close>

text \<open>
  C3: in a step of \<open>AStar\<close> that expands a node \<open>cur\<close>, every entry that stays in the
  frontier keeps its position; it is overwritten, by the node with the same coordinates,
  parent \<open>cur\<close> and g-cost \<open>gCost cur + 1\<close> (whatever the direction of the move), exactly
  when it has the coordinates of a neighbour of \<open>cur\<close> and that g-cost is strictly lower
  than its own. A neighbour whose coordinates are in \<open>closed\<close> changes nothing, whatever
  its cost.
\<close>

theorem AStar_relaxes_in_place:
  assumes inv: "search_inv W H s" and ne: "open_list s \<noteq> []" and st: "AStar s = Inr (Continuing, s')"
  shows "(\<forall>i < length (tl (sort_key fCost (open_list s))).
            i < length (open_list s') \<and>
            open_list s' ! i =
              (let cur = hd (sort_key fCost (open_list s)); old = tl (sort_key fCost (open_list s)) ! i
               in if (\<exists>n \<in> set (getNeighbors (DIAGONAL s) cur). node_eq n old) \<and> gCost cur + 1 < gCost old
                  then Node (node_y old) (node_x old) (Some cur) (gCost cur + 1) (HCost s old)
                  else old)) \<and>
         (\<forall>cur t n t'. node_in n (closed_list t) \<and> AStar_admit cur t n = Inr t' \<longrightarrow> t' = t)"
proof
  let ?cur = "hd (sort_key fCost (open_list s))" and ?rest = "tl (sort_key fCost (open_list s))"
  let ?s1 = "closed_state s ?cur ?rest" and ?ns = "getNeighbors (DIAGONAL s) ?cur"
  let ?ks = "filter (known ?s1) ?ns"
  have wf: "wf_dims W H (GRID s)" and oi: "\<forall>n \<in> set (open_list s). interior W H n"
    using inv by (auto simp: search_inv_def geo_inv_def wf_grid_def)
  note ex = AStar_Continuing_exact[OF wf oi ne st]
  have m: "mset (open_list s) = add_mset ?cur (mset ?rest)"
    using removed_remaining[OF ne, of AlgAStar] by simp
  have so: "set (open_list s) = insert ?cur (set ?rest)" using mset_add_set[OF m] .
  have "mset (map getPos (?cur # ?rest @ closed_list s)) = mset (map getPos (open_list s @ closed_list s))"
    using m by simp
  moreover have "distinct (map getPos (open_list s @ closed_list s))" using inv by (simp add: search_inv_def)
  ultimately have dist: "distinct (map getPos (?cur # ?rest @ closed_list s))"
    using mset_eq_imp_distinct_iff by blast
  have ci: "interior W H ?cur" using oi so by simp
  have kn: "\<And>x n. x \<in> set ?rest \<Longrightarrow> n \<in> set ?ns \<Longrightarrow> node_eq n x \<Longrightarrow> known ?s1 n"
  proof -
    fix x n assume x: "x \<in> set ?rest" and n: "n \<in> set ?ns" and eq: "node_eq n x"
    have pos: "getPos n = getPos x" using eq by (simp add: node_eq_getPos)
    have xo: "x \<in> set (open_list s)" using x so by simp
    have px: "getPos x \<in> getPos ` set ?rest" using x by (rule imageI)
    have "getPos ?cur \<notin> getPos ` set ?rest" using dist by simp
    then have xc: "getPos x \<noteq> getPos ?cur" using px by metis
    have "getPos ` set ?rest \<inter> getPos ` set (closed_list s) = {}" using dist by simp
    then have xcl: "getPos x \<notin> getPos ` set (closed_list s)" using px by blast
    have xr: "node_in_range W H x" using oi xo interior_in_range by blast
    have "node_tile (GRID s) x \<noteq> Wall" using inv xo by (simp add: search_inv_def)
    then have "node_tile (node_upd (GRID s) ?cur Visited) x \<noteq> Wall"
      using node_tile_upd[OF wf interior_in_range[OF ci] xr] xc by simp
    then have 1: "node_tile (GRID ?s1) n \<noteq> Wall" using node_tile_pos[OF pos] by simp
    have 2: "\<not> node_in n (closed_list ?s1)" using xc xcl pos by (simp add: node_in_getPos)
    have 3: "node_in n (open_list ?s1)" using px pos by (simp add: node_in_getPos)
    show "known ?s1 n" using 1 2 3 by (simp add: known_def)
  qed
  show "\<forall>i < length ?rest.
            i < length (open_list s') \<and>
            open_list s' ! i =
              (let cur = ?cur; old = ?rest ! i
               in if (\<exists>n \<in> set (getNeighbors (DIAGONAL s) cur). node_eq n old) \<and> gCost cur + 1 < gCost old
                  then Node (node_y old) (node_x old) (Some cur) (gCost cur + 1) (HCost s old)
                  else old)"
  proof (intro allI impI)
    fix i assume i: "i < length ?rest"
    then have x: "?rest ! i \<in> set ?rest" by (rule nth_mem)
    have "node_in (?rest ! i) ?ks \<longleftrightarrow> (\<exists>n \<in> set ?ns. node_eq n (?rest ! i))"
      using kn[OF x] by (auto simp: node_in_def)
    then have r: "relax ?cur (END s) (DIAGONAL s) ?ks (?rest ! i) =
        (if (\<exists>n \<in> set ?ns. node_eq n (?rest ! i)) \<and> gCost ?cur + 1 < gCost (?rest ! i)
         then Node (node_y (?rest ! i)) (node_x (?rest ! i)) (Some ?cur) (gCost ?cur + 1) (HCost s (?rest ! i))
         else ?rest ! i)"
      by (simp add: relax_def relaxed_def HCost_hcost)
    have "open_list s' ! i = relax ?cur (END s) (DIAGONAL s) ?ks (?rest ! i)"
      unfolding ex using i by (simp add: nth_append)
    moreover have "i < length (open_list s')" unfolding ex using i by simp
    ultimately show "i < length (open_list s') \<and>
            open_list s' ! i =
              (let cur = ?cur; old = ?rest ! i
               in if (\<exists>n \<in> set (getNeighbors (DIAGONAL s) cur). node_eq n old) \<and> gCost cur + 1 < gCost old
                  then Node (node_y old) (node_x old) (Some cur) (gCost cur + 1) (HCost s old)
                  else old)"
      using r by (simp add: Let_def)
  qed
  show "\<forall>cur t n t'. node_in n (closed_list t) \<and> AStar_admit cur t n = Inr t' \<longrightarrow> t' = t"
    by (auto simp: AStar_admit_def split: sum.splits)
qed

theorem AStar_relaxes_in_place_witness:
  "search_inv 6 6 relax_run \<and> open_list relax_run \<noteq> [] \<and>
   AStar relax_run = Inr (Continuing, relax_after) \<and>
   (1::nat) < length (tl (sort_key fCost (open_list relax_run))) \<and>
   (1::nat) < length (open_list relax_after) \<and>
   open_list relax_after ! 1 =
     (let cur = hd (sort_key fCost (open_list relax_run));
          old = tl (sort_key fCost (open_list relax_run)) ! 1
      in if (\<exists>n \<in> set (getNeighbors (DIAGONAL relax_run) cur). node_eq n old) \<and> gCost cur + 1 < gCost old
         then Node (node_y old) (node_x old) (Some cur) (gCost cur + 1) (HCost relax_run old)
         else old) \<and>
   gCost (tl (sort_key fCost (open_list relax_run)) ! 1) = 5 \<and>
   gCost (open_list relax_after ! 1) = 3 \<and>
   node_in (Node 1 1 None 0 0) (closed_list relax_run) \<and>
   AStar_admit (hd (sort_key fCost (open_list relax_run))) relax_run (Node 1 1 None 0 0) = Inr relax_run"
proof -
  have h1: "search_inv 6 6 relax_run" by (rule search_inv_relax_run)
  have h2: "open_list relax_run \<noteq> []" by (simp add: relax_run_def Let_def)
  have h3: "AStar relax_run = Inr (Continuing, relax_after)" by code_simp
  have h4: "(1::nat) < length (tl (sort_key fCost (open_list relax_run)))" by code_simp
  note t = AStar_relaxes_in_place[OF h1 h2 h3]
  from t have a: "\<forall>i < length (tl (sort_key fCost (open_list relax_run))).
            i < length (open_list relax_after) \<and>
            open_list relax_after ! i =
              (let cur = hd (sort_key fCost (open_list relax_run)); old = tl (sort_key fCost (open_list relax_run)) ! i
               in if (\<exists>n \<in> set (getNeighbors (DIAGONAL relax_run) cur). node_eq n old) \<and> gCost cur + 1 < gCost old
                  then Node (node_y old) (node_x old) (Some cur) (gCost cur + 1) (HCost relax_run old)
                  else old)"
    by (rule conjunct1)
  note a1 = a[rule_format, OF h4]
  have g5: "gCost (tl (sort_key fCost (open_list relax_run)) ! 1) = 5" by code_simp
  have g3: "gCost (open_list relax_after ! 1) = 3" by code_simp
  have n: "node_in (Node 1 1 None 0 0) (closed_list relax_run)" by code_simp
  have d: "AStar_admit (hd (sort_key fCost (open_list relax_run))) relax_run (Node 1 1 None 0 0) = Inr relax_run"
    by code_simp
  show ?thesis
    by (intro conjI h1 h2 h3 h4 conjunct1[OF a1] conjunct2[OF a1] g5 g3 n d)
qed

section \<open>The border wall\<close>

text \<open>
  C10: for a grid of at least 3 x 3 tiles, every border cell is a wall after the set-up in
  \<open>main\<close>, and stays one under wall painting, \<open>clear\<close>, \<open>reset\<close>, \<open>start\<close> and every step of
  every strategy, none of which raises (\<open>geo_inv\<close>: the grid has its dimensions, its border
  cells are walls, the start node, the end node and the nodes of both lists are in the
  interior). So every node a step removes from the frontier is in the interior, and the
  coordinates of the neighbours it generates, the only other cells a step reads or writes,
  are inside the grid.
\<close>

theorem border_walls_invariant:
  assumes "3 \<le> W" and "3 \<le> H"
  shows "(\<exists>s. main_setup W H = Inr s \<and> geo_inv W H s) \<and>
         (\<forall>s. geo_inv W H s \<longrightarrow>
            (\<forall>r c. in_range W H r c \<and> (r = 0 \<or> r = H - 1 \<or> c = 0 \<or> c = W - 1) \<longrightarrow>
                   grid_get (GRID s) r c = Inr Wall) \<and>
            (\<forall>pos clickType. \<exists>s'. mouseHandler W H s pos clickType = Inr s' \<and> geo_inv W H s') \<and>
            (\<exists>s'. clear W H s = Inr s' \<and> geo_inv W H s') \<and>
            (\<exists>s'. reset W H s = Inr s' \<and> geo_inv W H s') \<and>
            (\<exists>s'. start W H s = Inr s' \<and> geo_inv W H s') \<and>
            (\<forall>alg. \<exists>res s'. step alg s = Inr (res, s') \<and> geo_inv W H s' \<and>
                 (res \<noteq> Failure \<longrightarrow> interior W H (last (closed_list s')) \<and>
                    (\<forall>n \<in> set (getNeighbors (DIAGONAL s) (last (closed_list s'))). node_in_range W H n))))"
proof (intro conjI allI impI)
  show "\<exists>s. main_setup W H = Inr s \<and> geo_inv W H s"
    using main_setup_ok[OF assms] by blast
next
  fix s r c assume "geo_inv W H s" "in_range W H r c \<and> (r = 0 \<or> r = H - 1 \<or> c = 0 \<or> c = W - 1)"
  then show "grid_get (GRID s) r c = Inr Wall" using border_is_wall by blast
next
  fix s pos clickType assume "geo_inv W H s"
  then show "\<exists>s'. mouseHandler W H s pos clickType = Inr s' \<and> geo_inv W H s'" by (rule mouseHandler_geo)
next
  fix s assume "geo_inv W H s"
  then show "\<exists>s'. clear W H s = Inr s' \<and> geo_inv W H s'" by (rule clear_geo)
next
  fix s assume "geo_inv W H s"
  then show "\<exists>s'. reset W H s = Inr s' \<and> geo_inv W H s'" by (rule reset_geo)
next
  fix s assume "geo_inv W H s"
  then show "\<exists>s'. start W H s = Inr s' \<and> geo_inv W H s'" by (rule start_geo)
next
  fix s alg assume g: "geo_inv W H s"
  from step_geo[OF g, of alg] obtain res s' where st: "step alg s = Inr (res, s')" "geo_inv W H s'" by blast
  have "res \<noteq> Failure \<longrightarrow> interior W H (last (closed_list s')) \<and>
                    (\<forall>n \<in> set (getNeighbors (DIAGONAL s) (last (closed_list s'))). node_in_range W H n)"
    using step_accesses[OF g st(1)] by blast
  then show "\<exists>res s'. step alg s = Inr (res, s') \<and> geo_inv W H s' \<and>
                 (res \<noteq> Failure \<longrightarrow> interior W H (last (closed_list s')) \<and>
                    (\<forall>n \<in> set (getNeighbors (DIAGONAL s) (last (closed_list s'))). node_in_range W H n))"
    using st by blast
qed

theorem border_walls_invariant_witness:
  "(3::int) \<le> 5 \<and> geo_inv 5 5 open_run \<and>
   in_range 5 5 0 2 \<and> grid_get (GRID open_run) 0 2 = Inr Wall \<and>
   (\<exists>s. main_setup 5 5 = Inr s \<and> geo_inv 5 5 s) \<and>
   (\<exists>res s'. step AlgBFS open_run = Inr (res, s') \<and> geo_inv 5 5 s' \<and> res \<noteq> Failure \<and>
       interior 5 5 (last (closed_list s')) \<and>
       (\<forall>n \<in> set (getNeighbors (DIAGONAL open_run) (last (closed_list s'))). node_in_range 5 5 n))"
proof -
  have h: "(3::int) \<le> 5" by simp
  have g: "geo_inv 5 5 open_run"
    using seeded_search_inv[OF seeded_open_run] by (simp add: search_inv_def)
  have r: "in_range 5 5 0 2" by (simp add: in_range_def)
  note t = border_walls_invariant[OF h h]
  from t have 1: "\<exists>s. main_setup 5 5 = Inr s \<and> geo_inv 5 5 s" by (rule conjunct1)
  from t have a: "\<forall>s. geo_inv 5 5 s \<longrightarrow>
            (\<forall>r c. in_range 5 5 r c \<and> (r = 0 \<or> r = 5 - 1 \<or> c = 0 \<or> c = 5 - 1) \<longrightarrow>
                   grid_get (GRID s) r c = Inr Wall) \<and>
            (\<forall>pos clickType. \<exists>s'. mouseHandler 5 5 s pos clickType = Inr s' \<and> geo_inv 5 5 s') \<and>
            (\<exists>s'. clear 5 5 s = Inr s' \<and> geo_inv 5 5 s') \<and>
            (\<exists>s'. reset 5 5 s = Inr s' \<and> geo_inv 5 5 s') \<and>
            (\<exists>s'. start 5 5 s = Inr s' \<and> geo_inv 5 5 s') \<and>
            (\<forall>alg. \<exists>res s'. step alg s = Inr (res, s') \<and> geo_inv 5 5 s' \<and>
                 (res \<noteq> Failure \<longrightarrow> interior 5 5 (last (closed_list s')) \<and>
                    (\<forall>n \<in> set (getNeighbors (DIAGONAL s) (last (closed_list s'))). node_in_range 5 5 n)))"
    by (rule conjunct2)
  from a g have 2: "grid_get (GRID open_run) 0 2 = Inr Wall" using r by blast
  from a g obtain res s' where st: "step AlgBFS open_run = Inr (res, s')" "geo_inv 5 5 s'"
    "res \<noteq> Failure \<longrightarrow> interior 5 5 (last (closed_list s')) \<and>
        (\<forall>n \<in> set (getNeighbors (DIAGONAL open_run) (last (closed_list s'))). node_in_range 5 5 n)"
    by blast
  have "open_list open_run \<noteq> []" by (simp add: open_run_def)
  then have "res \<noteq> Failure" using st(1) step_after_failure_aux by blast
  then show ?thesis using h g r 1 2 st by blast
qed

section \<open>Path reconstruction\<close>

text \<open>
  C7: when a run that has just been seeded ends in \<open>Success\<close>, \<open>reconstructPath\<close> returns
  (its loop ends and nothing raises); the last node of \<open>closed\<close> has the end coordinates,
  its parent chain ends in the start node; afterwards the start tile holds \<open>StartTile\<close>,
  the end tile holds \<open>EndTile\<close>, and a tile holds \<open>FinalPath\<close> exactly when it is the tile
  of a node of the chain other than its first (the end node) and its last (the start
  node).
\<close>

theorem reconstructPath_marks_chain:
  assumes "seeded W H s0" and "run alg n s0 = Inr (Success, s)"
  shows "\<exists>s'. reconstructPath s = Some (Inr s') \<and>
           closed_list s \<noteq> [] \<and>
           node_eq (last (closed_list s)) (END s) \<and>
           last (chain (last (closed_list s))) = START s \<and>
           node_tile (GRID s') (START s) = StartTile \<and> node_tile (GRID s') (END s) = EndTile \<and>
           (\<forall>r c. in_range W H r c \<longrightarrow>
              (tile (GRID s') r c = FinalPath \<longleftrightarrow>
               (r, c) \<in> getPos ` set (butlast (tl (chain (last (closed_list s)))))))"
proof -
  from run_last_step[OF seeded_run_inv[OF assms(1)] assms(2)] obtain s1 where
    "run_inv W H s1" "step alg s1 = Inr (Success, s)" by auto
  then show ?thesis by (rule reconstruct_after_success)
qed

theorem reconstructPath_marks_chain_witness:
  "seeded 5 5 near_run \<and> run AlgBFS 4 near_run = Inr (Success, near_done) \<and>
   chain (last (closed_list near_done)) =
     [Node 1 3 (Some (Node 1 2 (Some (Node 1 1 None 0 0)) 0 0)) 0 0,
      Node 1 2 (Some (Node 1 1 None 0 0)) 0 0, Node 1 1 None 0 0] \<and>
   (\<exists>s'. reconstructPath near_done = Some (Inr s') \<and>
           closed_list near_done \<noteq> [] \<and>
           node_eq (last (closed_list near_done)) (END near_done) \<and>
           last (chain (last (closed_list near_done))) = START near_done \<and>
           node_tile (GRID s') (START near_done) = StartTile \<and> node_tile (GRID s') (END near_done) = EndTile \<and>
           (\<forall>r c. in_range 5 5 r c \<longrightarrow>
              (tile (GRID s') r c = FinalPath \<longleftrightarrow>
               (r, c) \<in> getPos ` set (butlast (tl (chain (last (closed_list near_done))))))))"
proof -
  have h1: "seeded 5 5 near_run" by (rule seeded_near_run)
  have h2: "run AlgBFS 4 near_run = Inr (Success, near_done)" by code_simp
  have c: "chain (last (closed_list near_done)) =
     [Node 1 3 (Some (Node 1 2 (Some (Node 1 1 None 0 0)) 0 0)) 0 0,
      Node 1 2 (Some (Node 1 1 None 0 0)) 0 0, Node 1 1 None 0 0]"
    by (simp add: near_done_def Let_def chain.simps)
  show ?thesis
    by (rule conjI[OF h1 conjI[OF h2 conjI[OF c reconstructPath_marks_chain[OF h1 h2]]]])
qed

section \<open>Breadth-first search finds a shortest route\<close>

text \<open>
  C2: take a run of \<open>BFS\<close> that has just been seeded with orthogonal movement, on a grid
  that has a passable orthogonal route \<open>ps\<close> from the start tile to the end tile. Then
  calling the step function again and again reports \<open>Success\<close> (within \<open>W * H\<close> calls),
  and whenever it does, the parent chain of the node closed last, read from its far end,
  is itself a passable orthogonal route from the start tile to the end tile, with no
  more edges than \<open>ps\<close>. As \<open>ps\<close> is any route, the chain has the length of a shortest
  one.
\<close>

theorem BFS_finds_shortest_route:
  assumes sd: "seeded W H s" and nd: "\<not> DIAGONAL s"
    and rt: "route W H (GRID s) ps" and hp: "hd ps = getPos (START s)" and lp: "last ps = getPos (END s)"
  shows "(\<exists>s'. run AlgBFS (nat (W * H)) s = Inr (Success, s')) \<and>
         (\<forall>n s'. run AlgBFS n s = Inr (Success, s') \<longrightarrow>
            closed_list s' \<noteq> [] \<and>
            node_eq (last (closed_list s')) (END s) \<and>
            last (chain (last (closed_list s'))) = START s \<and>
            route W H (GRID s) (backpointer_route s') \<and>
            hd (backpointer_route s') = getPos (START s) \<and>
            last (backpointer_route s') = getPos (END s) \<and>
            length (backpointer_route s') - 1 \<le> length ps - 1)"
proof (rule conjI)
  note inv = seeded_bfs_inv[OF sd nd]
  from run_terminates[OF seeded_search_inv[OF sd], of AlgBFS] obtain r s' where
    r: "run AlgBFS (nat (W * H)) s = Inr (r, s')" "r \<noteq> Continuing" by blast
  from bfs_run_last_step[OF inv r] obtain s1 where
    s1: "bfs_inv W H (GRID s) s1" "START s1 = START s" "END s1 = END s" "step AlgBFS s1 = Inr (r, s')"
    by blast
  have "r \<noteq> Failure"
    using bfs_not_failure[OF s1(1) s1(4) rt] hp lp s1(2,3) by simp
  then have "r = Success" using r(2) by (cases r) simp_all
  then show "\<exists>s'. run AlgBFS (nat (W * H)) s = Inr (Success, s')" using r(1) by blast
next
  note inv = seeded_bfs_inv[OF sd nd]
  show "\<forall>n s'. run AlgBFS n s = Inr (Success, s') \<longrightarrow>
            closed_list s' \<noteq> [] \<and>
            node_eq (last (closed_list s')) (END s) \<and>
            last (chain (last (closed_list s'))) = START s \<and>
            route W H (GRID s) (backpointer_route s') \<and>
            hd (backpointer_route s') = getPos (START s) \<and>
            last (backpointer_route s') = getPos (END s) \<and>
            length (backpointer_route s') - 1 \<le> length ps - 1"
  proof (intro allI impI)
    fix n s' assume run: "run AlgBFS n s = Inr (Success, s')"
    have nc: "Success \<noteq> Continuing" by simp
    from bfs_run_last_step[OF inv run nc] obtain s1 where
      s1: "bfs_inv W H (GRID s) s1" "START s1 = START s" "END s1 = END s"
        "step AlgBFS s1 = Inr (Success, s')"
      by blast
    have hp1: "hd ps = getPos (START s1)" and lp1: "last ps = getPos (END s1)"
      using hp lp s1(2,3) by simp_all
    note b = bfs_success[OF s1(1) s1(4) rt hp1 lp1]
    have 7: "length (backpointer_route s') - 1 \<le> length ps - 1"
      using b(7) by (simp add: backpointer_route_def)
    show "closed_list s' \<noteq> [] \<and>
            node_eq (last (closed_list s')) (END s) \<and>
            last (chain (last (closed_list s'))) = START s \<and>
            route W H (GRID s) (backpointer_route s') \<and>
            hd (backpointer_route s') = getPos (START s) \<and>
            last (backpointer_route s') = getPos (END s) \<and>
            length (backpointer_route s') - 1 \<le> length ps - 1"
      unfolding backpointer_route_def[symmetric]
      using b(1-6) 7 s1(2,3) unfolding backpointer_route_def by simp
  qed
qed

theorem BFS_finds_shortest_route_witness:
  "seeded 5 5 detour_run \<and> \<not> DIAGONAL detour_run \<and>
   route 5 5 (GRID detour_run) [(1, 1), (2, 1), (3, 1), (3, 2), (3, 3), (2, 3), (1, 3)] \<and>
   hd [(1, 1), (2, 1), (3, 1), (3, 2), (3, 3), (2, 3), (1, 3)] = getPos (START detour_run) \<and>
   last [(1, 1), (2, 1), (3, 1), (3, 2), (3, 3), (2, 3), (1, 3)] = getPos (END detour_run) \<and>
   (\<exists>s'. run AlgBFS (nat (5 * 5)) detour_run = Inr (Success, s')) \<and>
   run AlgBFS 7 detour_run = Inr (Success, detour_done) \<and>
   backpointer_route detour_done = [(1, 1), (2, 1), (3, 1), (3, 2), (3, 3), (2, 3), (1, 3)] \<and>
   closed_list detour_done \<noteq> [] \<and>
   node_eq (last (closed_list detour_done)) (END detour_run) \<and>
   last (chain (last (closed_list detour_done))) = START detour_run \<and>
   route 5 5 (GRID detour_run) (backpointer_route detour_done) \<and>
   hd (backpointer_route detour_done) = getPos (START detour_run) \<and>
   last (backpointer_route detour_done) = getPos (END detour_run) \<and>
   length (backpointer_route detour_done) - 1
     \<le> length [(1, 1), (2, 1), (3, 1), (3, 2), (3, 3), (2, 3), (1 :: int, 3 :: int)] - 1"
proof -
  have h1: "seeded 5 5 detour_run" by (rule seeded_detour_run)
  have h2: "\<not> DIAGONAL detour_run" by (simp add: detour_run_def)
  have h3: "route 5 5 (GRID detour_run) [(1, 1), (2, 1), (3, 1), (3, 2), (3, 3), (2, 3), (1, 3)]"
    by (simp add: route_def passable_def in_range_def tile_def orth_adj_def detour_run_def)
  have h4: "hd [(1, 1), (2, 1), (3, 1), (3, 2), (3, 3), (2, 3), (1, 3)] = getPos (START detour_run)"
    by (simp add: detour_run_def getPos_def)
  have h5: "last [(1, 1), (2, 1), (3, 1), (3, 2), (3, 3), (2, 3), (1, 3)] = getPos (END detour_run)"
    by (simp add: detour_run_def getPos_def)
  have h6: "run AlgBFS 7 detour_run = Inr (Success, detour_done)" by code_simp
  have c: "backpointer_route detour_done = [(1, 1), (2, 1), (3, 1), (3, 2), (3, 3), (2, 3), (1, 3)]"
    by (simp add: backpointer_route_def detour_done_def Let_def chain.simps getPos_def)
  note t = BFS_finds_shortest_route[OF h1 h2 h3 h4 h5]
  note t2 = conjunct2[OF t, rule_format, OF h6]
  show ?thesis
    by (intro conjI h1 h2 h3 h4 h5 conjunct1[OF t] h6 c t2[THEN conjunct1]
        t2[THEN conjunct2, THEN conjunct1]
        t2[THEN conjunct2, THEN conjunct2, THEN conjunct1]
        t2[THEN conjunct2, THEN conjunct2, THEN conjunct2, THEN conjunct1]
        t2[THEN conjunct2, THEN conjunct2, THEN conjunct2, THEN conjunct2, THEN conjunct1]
        t2[THEN conjunct2, THEN conjunct2, THEN conjunct2, THEN conjunct2, THEN conjunct2, THEN conjunct1]
        t2[THEN conjunct2, THEN conjunct2, THEN conjunct2, THEN conjunct2, THEN conjunct2, THEN conjunct2])
qed

end
